theory Spec2Isabelle
  imports Complex_Main "HOL-Library.AList" "HOL-Library.Product_Lexorder"
    "HOL-Library.List_Lexorder" "HOL-Library.Char_ord"
begin

section \<open>virHEAT data preparation (\<^verbatim>\<open>virheat/scripts/data_prep.py\<close>)\<close>

text \<open>
  A shallow embedding of the data preparation functions of virHEAT. Python
  exceptions and \<^verbatim>\<open>sys.exit\<close> are values of the type \<open>error\<close>; every function
  that can raise returns \<open>error + 'a\<close> with \<open>Inl\<close> the exception. Lists the code
  mutates in place (the mutation axis) are passed in and returned updated.
  Python floats are modelled as rationals and \<^verbatim>\<open>nan\<close> (a masked cell) as \<open>None\<close>;
  strings are byte strings (ASCII).
\<close>

datatype error =
    IndexError | KeyError | ValueError | TypeError | AttributeError | UnboundLocalError
  | NoVariantsFound \<comment> \<open>\<^verbatim>\<open>sys.exit\<close> of \<^verbatim>\<open>extract_vcf_data\<close>\<close>
  | ReferenceNotFound \<comment> \<open>\<^verbatim>\<open>sys.exit\<close> of \<^verbatim>\<open>parse_gff3\<close>\<close>

subsection \<open>Exceptions in sequence\<close>

definition ebind :: "error + 'a \<Rightarrow> ('a \<Rightarrow> error + 'b) \<Rightarrow> error + 'b" where
  "ebind m f = (case m of Inl e \<Rightarrow> Inl e | Inr x \<Rightarrow> f x)"

text \<open>\<^verbatim>\<open>d[k]\<close> on a dictionary, kept as the list of its items in insertion order.\<close>

definition lookup :: "('k \<times> 'v) list \<Rightarrow> 'k \<Rightarrow> error + 'v" where
  "lookup d k = (case map_of d k of None \<Rightarrow> Inl KeyError | Some v \<Rightarrow> Inr v)"

subsection \<open>The frequency matrix\<close>

text \<open>
  A cell of the frequency array is a number or \<^verbatim>\<open>nan\<close>. Every comparison with
  \<^verbatim>\<open>nan\<close> (and with numpy's masked constant) is false.
\<close>

type_synonym cell = "rat option"
type_synonym matrix = "cell list list"

fun cell_eq0 :: "cell \<Rightarrow> bool" where
  "cell_eq0 None = False"
| "cell_eq0 (Some v) = (v = 0)"

fun cell_gt0 :: "cell \<Rightarrow> bool" where
  "cell_gt0 None = False"
| "cell_gt0 (Some v) = (0 < v)"

fun num_of :: "cell \<Rightarrow> rat" where
  "num_of None = 0"
| "num_of (Some v) = v"

text \<open>\<^verbatim>\<open>max(check_all)\<close> and \<^verbatim>\<open>min(check_all)\<close>, on a list that is not empty.\<close>

definition py_max :: "rat list \<Rightarrow> rat" where
  "py_max xs = fold max (tl xs) (hd xs)"

definition py_min :: "rat list \<Rightarrow> rat" where
  "py_min xs = fold min (tl xs) (hd xs)"

text \<open>
  The test of \<^verbatim>\<open>delete_common_mutations\<close> on one column \<^verbatim>\<open>check_all\<close>:
  \<^verbatim>\<open>all(x == 0 ...)\<close>, or \<^verbatim>\<open>all(x > 0 ...) and max(check_all)-min(check_all) < 0.5\<close>.
  The difference is only computed when every cell is a positive number. It is exact
  here, where the code rounds it to a double.
\<close>

definition common_column :: "cell list \<Rightarrow> bool" where
  "common_column check_all =
     (if list_all cell_eq0 check_all then True
      else list_all cell_gt0 check_all \<and>
           py_max (map num_of check_all) - py_min (map num_of check_all) < 1 / 2)"

text \<open>
  The test of \<^verbatim>\<open>delete_n_mutations\<close> on one column: the number of cells
  \<^verbatim>\<open>> 0\<close> is \<^verbatim>\<open><= min_mut\<close>.
\<close>

definition rare_column :: "int \<Rightarrow> cell list \<Rightarrow> bool" where
  "rare_column min_mut check_all = (int (length (filter cell_gt0 check_all)) \<le> min_mut)"

text \<open>
  The loop \<^verbatim>\<open>for idx in range(0, len(frequency_array[0]))\<close> that collects
  \<^verbatim>\<open>mut_to_del\<close>. \<^verbatim>\<open>frequency_array[0]\<close> raises on an array without rows,
  \<^verbatim>\<open>frequency_list[idx]\<close> on a row shorter than the first.
\<close>

definition mut_to_del_of :: "(cell list \<Rightarrow> bool) \<Rightarrow> matrix \<Rightarrow> error + nat list" where
  "mut_to_del_of test frequency_array =
     (case frequency_array of
        [] \<Rightarrow> Inl IndexError
      | row0 # _ \<Rightarrow>
          if list_all (\<lambda>frequency_list. length row0 \<le> length frequency_list) frequency_array
          then Inr (filter (\<lambda>idx. test (map (\<lambda>frequency_list. frequency_list ! idx) frequency_array))
                      [0..<length row0])
          else Inl IndexError)"

text \<open>\<^verbatim>\<open>del unique_mutations[idx]\<close>, and the loop over \<^verbatim>\<open>sorted(mut_to_del, reverse=True)\<close>.\<close>

definition del_index :: "'a list \<Rightarrow> nat \<Rightarrow> error + 'a list" where
  "del_index xs idx =
     (if idx < length xs then Inr (take idx xs @ drop (Suc idx) xs) else Inl IndexError)"

fun del_indices :: "nat list \<Rightarrow> 'a list \<Rightarrow> error + 'a list" where
  "del_indices [] xs = Inr xs"
| "del_indices (idx # idxs) xs =
     (case del_index xs idx of Inl e \<Rightarrow> Inl e | Inr xs' \<Rightarrow> del_indices idxs xs')"

text \<open>
  \<^verbatim>\<open>np.delete(frequency_array, mut_to_del, axis=1)\<close>: a new array without the
  columns \<^verbatim>\<open>mut_to_del\<close>. Rows of different lengths are no array.
\<close>

definition keep_columns :: "nat list \<Rightarrow> 'a list \<Rightarrow> 'a list" where
  "keep_columns mut_to_del row =
     map (\<lambda>i. row ! i) (filter (\<lambda>i. i \<notin> set mut_to_del) [0..<length row])"

definition np_delete :: "matrix \<Rightarrow> nat list \<Rightarrow> error + matrix" where
  "np_delete frequency_array mut_to_del =
     (if list_all (\<lambda>row. length row = length (hd frequency_array)) frequency_array
      then Inr (map (keep_columns mut_to_del) frequency_array)
      else Inl ValueError)"

text \<open>
  Both filters: the result is the caller's \<^verbatim>\<open>unique_mutations\<close> list as the call
  leaves it, and the array returned.
\<close>

definition delete_columns ::
  "(cell list \<Rightarrow> bool) \<Rightarrow> matrix \<Rightarrow> string list \<Rightarrow> error + (string list \<times> matrix)" where
  "delete_columns test frequency_array unique_mutations =
     (case mut_to_del_of test frequency_array of
        Inl e \<Rightarrow> Inl e
      | Inr mut_to_del \<Rightarrow>
          (case del_indices (rev (sort mut_to_del)) unique_mutations of
             Inl e \<Rightarrow> Inl e
           | Inr unique_mutations' \<Rightarrow>
               (case np_delete frequency_array mut_to_del of
                  Inl e \<Rightarrow> Inl e
                | Inr result \<Rightarrow> Inr (unique_mutations', result))))"

definition delete_common_mutations ::
  "matrix \<Rightarrow> string list \<Rightarrow> error + (string list \<times> matrix)" where
  "delete_common_mutations frequency_array unique_mutations =
     delete_columns common_column frequency_array unique_mutations"

definition delete_n_mutations ::
  "matrix \<Rightarrow> string list \<Rightarrow> int \<Rightarrow> error + (string list \<times> matrix)" where
  "delete_n_mutations frequency_array unique_mutations min_mut =
     delete_columns (rare_column min_mut) frequency_array unique_mutations"

subsection \<open>Python strings\<close>

text \<open>
  \<^verbatim>\<open>s.split(sep)\<close> for a separator of one character, never an empty list; the
  characters of the part being read are collected in \<open>word\<close>, last first.
\<close>

fun split_from :: "char \<Rightarrow> string \<Rightarrow> string \<Rightarrow> string list" where
  "split_from sep word [] = [rev word]"
| "split_from sep word (c # cs) =
     (if c = sep then rev word # split_from sep [] cs else split_from sep (c # word) cs)"

definition py_split :: "char \<Rightarrow> string \<Rightarrow> string list" where
  "py_split sep s = split_from sep [] s"

text \<open>
  \<^verbatim>\<open>sep.join(fields)\<close>, and a line of a tab separated file with its line end.
\<close>

fun join :: "char \<Rightarrow> string list \<Rightarrow> string" where
  "join sep [] = []"
| "join sep [field] = field"
| "join sep (field # fields) = field @ sep # join sep fields"

definition text_line :: "string list \<Rightarrow> string" where
  "text_line fields = join (CHR 0x09) fields @ [CHR 0x0A]"

definition startswith :: "string \<Rightarrow> string \<Rightarrow> bool" where
  "startswith s p = (take (length p) s = p)"

text \<open>The ASCII characters \<^verbatim>\<open>str.strip()\<close> takes for white space.\<close>

definition isspace :: "char \<Rightarrow> bool" where
  "isspace c = (let n = (of_char c :: nat) in (9 \<le> n \<and> n \<le> 13) \<or> (28 \<le> n \<and> n \<le> 32))"

definition strip :: "string \<Rightarrow> string" where
  "strip s = rev (dropWhile isspace (rev (dropWhile isspace s)))"

definition isdigit :: "char \<Rightarrow> bool" where
  "isdigit c = (let n = (of_char c :: nat) in 48 \<le> n \<and> n \<le> 57)"

definition isdecimal :: "string \<Rightarrow> bool" where
  "isdecimal s = (s \<noteq> [] \<and> list_all isdigit s)"

definition digits_value :: "string \<Rightarrow> nat" where
  "digits_value s = foldl (\<lambda>n c. 10 * n + ((of_char c :: nat) - 48)) 0 s"

text \<open>
  \<^verbatim>\<open>int(s)\<close> on a string: white space around (tab to carriage return, and the
  space), an optional sign, then decimal digits, where single underscores may stand
  between digits. Anything else raises \<^verbatim>\<open>ValueError\<close>.
\<close>

definition int_literal :: "string \<Rightarrow> bool" where
  "int_literal body = list_all isdecimal (py_split (CHR ''_'') body)"

definition int_space :: "char \<Rightarrow> bool" where
  "int_space c = (let n = (of_char c :: nat) in (9 \<le> n \<and> n \<le> 13) \<or> n = 32)"

definition py_int :: "string \<Rightarrow> error + int" where
  "py_int s =
     (let t = rev (dropWhile int_space (rev (dropWhile int_space s)));
          negative = (t \<noteq> [] \<and> hd t = CHR ''-'');
          body = (if t \<noteq> [] \<and> (hd t = CHR ''-'' \<or> hd t = CHR ''+'') then tl t else t)
      in if int_literal body
         then Inr ((if negative then - 1 else 1) *
                   int (digits_value (filter (\<lambda>c. c \<noteq> CHR ''_'') body)))
         else Inl ValueError)"

text \<open>\<^verbatim>\<open>int(mutation.split("_")[0])\<close>, the position a mutation label starts with.\<close>

definition mutation_position :: "string \<Rightarrow> error + int" where
  "mutation_position mutation = py_int (hd (py_split (CHR ''_'') mutation))"

subsection \<open>Masking cells without coverage\<close>

text \<open>
  A per base coverage file as \<^verbatim>\<open>pd.read_csv\<close> reads it: the rows of the columns
  \<^verbatim>\<open>#chr\<close>, \<^verbatim>\<open>pos\<close> and \<^verbatim>\<open>coverage\<close>. A file found in the coverage directory
  is its name without the extension, and its table.
\<close>

record coverage_row =
  chr_col :: string
  pos_col :: int
  coverage_col :: int

type_synonym tsv_file = "string \<times> coverage_row list"

text \<open>
  The test on one cell: \<^verbatim>\<open>coverage[coverage["pos"] == mut_pos].empty or
  all([frequency == 0, coverage[...]["coverage"].iloc[0] <= min_coverage])\<close>; a cell
  that passes it is set to \<^verbatim>\<open>nan\<close>.
\<close>

definition mask_cell :: "coverage_row list \<Rightarrow> int \<Rightarrow> int \<Rightarrow> cell \<Rightarrow> cell" where
  "mask_cell coverage min_coverage mut_pos frequency =
     (case filter (\<lambda>r. pos_col r = mut_pos) coverage of
        [] \<Rightarrow> None
      | r # _ \<Rightarrow>
          if cell_eq0 frequency \<and> coverage_col r \<le> min_coverage then None else frequency)"

text \<open>
  The inner loop over \<^verbatim>\<open>zip(unique_mutations, array)\<close>; cells beyond the shorter
  of the two are not visited.
\<close>

fun mask_row :: "coverage_row list \<Rightarrow> int \<Rightarrow> string list \<Rightarrow> cell list \<Rightarrow> error + cell list" where
  "mask_row coverage min_coverage (mutation # mutations) (frequency # array) =
     (case mutation_position mutation of
        Inl e \<Rightarrow> Inl e
      | Inr mut_pos \<Rightarrow>
          (case mask_row coverage min_coverage mutations array of
             Inl e \<Rightarrow> Inl e
           | Inr array' \<Rightarrow> Inr (mask_cell coverage min_coverage mut_pos frequency # array')))"
| "mask_row coverage min_coverage mutations array = Inr array"

text \<open>
  The outer loop over \<^verbatim>\<open>zip(file_names, frequency_array)\<close>: a sample without a
  coverage file is skipped with a warning, otherwise the first file of its name is
  read and restricted to the rows of the reference.
\<close>

fun mask_rows ::
  "tsv_file list \<Rightarrow> int \<Rightarrow> string list \<Rightarrow> string \<Rightarrow> string list \<Rightarrow> matrix \<Rightarrow> error + matrix" where
  "mask_rows files min_coverage unique_mutations reference (file_name # file_names) (array # arrays) =
     (case (case find (\<lambda>file. fst file = file_name) files of
              None \<Rightarrow> Inr array
            | Some tsv_file \<Rightarrow>
                mask_row (filter (\<lambda>r. chr_col r = reference) (snd tsv_file))
                  min_coverage unique_mutations array) of
        Inl e \<Rightarrow> Inl e
      | Inr array' \<Rightarrow>
          (case mask_rows files min_coverage unique_mutations reference file_names arrays of
             Inl e \<Rightarrow> Inl e
           | Inr arrays' \<Rightarrow> Inr (array' # arrays')))"
| "mask_rows files min_coverage unique_mutations reference file_names arrays = Inr arrays"

text \<open>
  \<^verbatim>\<open>annotate_non_covered_regions\<close>, with the files \<^verbatim>\<open>get_files(coverage_dir, "tsv")\<close>
  found in place of the directory. The masked array returned masks the cells that
  are \<^verbatim>\<open>nan\<close>, here \<open>None\<close>. The array is one of floats (an array of integers
  cannot take \<^verbatim>\<open>nan\<close>), and the column \<^verbatim>\<open>#chr\<close> of a table is one of strings.
\<close>

definition annotate_non_covered_regions ::
  "tsv_file list \<Rightarrow> int \<Rightarrow> matrix \<Rightarrow> string list \<Rightarrow> string list \<Rightarrow> string \<Rightarrow> error + matrix" where
  "annotate_non_covered_regions per_base_coverage_files min_coverage frequency_array file_names
     unique_mutations reference =
     (if per_base_coverage_files \<noteq> []
      then mask_rows per_base_coverage_files min_coverage unique_mutations reference
             file_names frequency_array
      else Inr frequency_array)"

subsection \<open>The annotation index\<close>

text \<open>
  The dictionary \<^verbatim>\<open>parse_gff3\<close> builds maps a feature type to a dictionary from
  feature ids to the attributes of the feature: strings, and the integers stored
  under \<^verbatim>\<open>start\<close> and \<^verbatim>\<open>stop\<close>. A dictionary is the list of its items in insertion
  order, with one item per key; \<open>AList.update\<close> is the assignment \<^verbatim>\<open>d[k] = v\<close>.
\<close>

datatype gval = GStr string | GInt int

type_synonym attributes = "(string \<times> gval) list"
type_synonym gff3 = "(string \<times> (string \<times> attributes) list) list"

text \<open>
  Python's \<^verbatim>\<open><\<close> on two strings or on two integers. A string and an integer do not
  compare (\<^verbatim>\<open>TypeError\<close>); the order puts integers first there, and
  \<^verbatim>\<open>create_track_dict\<close> below raises before it sorts such values.
\<close>

instantiation gval :: linorder
begin

fun less_eq_gval :: "gval \<Rightarrow> gval \<Rightarrow> bool" where
  "less_eq_gval (GInt a) (GInt b) = (a \<le> b)"
| "less_eq_gval (GStr a) (GStr b) = (a \<le> b)"
| "less_eq_gval (GInt a) (GStr b) = True"
| "less_eq_gval (GStr a) (GInt b) = False"

definition less_gval :: "gval \<Rightarrow> gval \<Rightarrow> bool" where
  "less_gval x y = (x \<le> y \<and> \<not> y \<le> x)"

instance
proof
  fix x y z :: gval
  show "(x < y) = (x \<le> y \<and> \<not> y \<le> x)" by (simp add: less_gval_def)
  show "x \<le> x" by (cases x) auto
  show "x \<le> y \<Longrightarrow> y \<le> z \<Longrightarrow> x \<le> z" by (cases x; cases y; cases z) auto
  show "x \<le> y \<Longrightarrow> y \<le> x \<Longrightarrow> x = y" by (cases x; cases y) auto
  show "x \<le> y \<or> y \<le> x" by (cases x; cases y) auto
qed

end

fun same_type :: "gval \<Rightarrow> gval \<Rightarrow> bool" where
  "same_type (GInt a) (GInt b) = True"
| "same_type (GStr a) (GStr b) = True"
| "same_type x y = False"

subsection \<open>Reading a VCF file\<close>

text \<open>
  The values \<^verbatim>\<open>convert_string\<close> produces, and \<^verbatim>\<open>None\<close>. An integer is a string
  of digits; a float is a string of digits with one point in it, taken here at its
  exact decimal value; any other string stays a string.
\<close>

datatype pyval = PInt int | PFloat rat | PStr string | PNone

definition decimal_value :: "string \<Rightarrow> rat" where
  "decimal_value s =
     of_nat (digits_value (remove1 (CHR ''.'') s)) /
     10 ^ length (tl (dropWhile (\<lambda>c. c \<noteq> CHR ''.'') s))"

definition convert_string :: "string \<Rightarrow> pyval" where
  "convert_string string =
     (let s = filter (\<lambda>c. c \<noteq> CHR 0x0A) string in
      if isdecimal s then PInt (int (digits_value s))
      else if isdecimal (remove1 (CHR ''.'') s) then PFloat (decimal_value s)
      else PStr s)"

text \<open>\<^verbatim>\<open>xs[i]\<close> for an index that is not negative.\<close>

definition item :: "'a list \<Rightarrow> nat \<Rightarrow> error + 'a" where
  "item xs i = (if i < length xs then Inr (xs ! i) else Inl IndexError)"

text \<open>
  \<^verbatim>\<open>vcf_dict\<close> maps a column name to the list of its values.
  \<^verbatim>\<open>vcf_dict[key].append(v)\<close>, for the values of one loop together:
\<close>

type_synonym vcf_dict = "(string \<times> pyval list) list"

definition append_values :: "vcf_dict \<Rightarrow> string \<Rightarrow> pyval list \<Rightarrow> error + vcf_dict" where
  "append_values vcf_dict key vs =
     ebind (lookup vcf_dict key) (\<lambda>old. Inr (AList.update key (old @ vs) vcf_dict))"

text \<open>
  The loop \<^verbatim>\<open>for i in range(length_variants)\<close> on the comma separated values of
  one column: \<^verbatim>\<open>sublines[i]\<close>, and \<^verbatim>\<open>sublines[0]\<close> when that raises \<^verbatim>\<open>IndexError\<close>.
\<close>

definition column_values :: "string list \<Rightarrow> nat \<Rightarrow> pyval list" where
  "column_values sublines length_variants =
     map (\<lambda>i. convert_string (if i < length sublines then sublines ! i else hd sublines))
       [0..<length_variants]"

text \<open>\<^verbatim>\<open>for idx, key in enumerate(header[0:6])\<close>, from the column \<open>idx\<close> on.\<close>

fun canonical_columns ::
  "string list \<Rightarrow> nat \<Rightarrow> string list \<Rightarrow> nat \<Rightarrow> vcf_dict \<Rightarrow> error + vcf_dict" where
  "canonical_columns [] idx line length_variants vcf_dict = Inr vcf_dict"
| "canonical_columns (key # keys) idx line length_variants vcf_dict =
     ebind (item line idx) (\<lambda>field.
     ebind (append_values vcf_dict key
              (column_values (py_split (CHR '','') field) length_variants)) (\<lambda>vcf_dict'.
       canonical_columns keys (Suc idx) line length_variants vcf_dict'))"

text \<open>The mutation type of one allele, from the lengths of \<^verbatim>\<open>line[3]\<close> and the allele.\<close>

definition mut_type :: "string \<Rightarrow> string \<Rightarrow> string" where
  "mut_type ref mutation =
     (if length ref = length mutation then ''SNV''
      else if length ref < length mutation then ''INS''
      else ''DEL'')"

text \<open>
  \<^verbatim>\<open>for info in line[7].split(";")\<close> of the filling loop, with the dictionary and
  \<^verbatim>\<open>visited_keys\<close>. \<^verbatim>\<open>key, val = info.split("=")\<close> raises \<^verbatim>\<open>ValueError\<close> on a second
  \<^verbatim>\<open>=\<close>.
\<close>

fun info_fields ::
  "string list \<Rightarrow> vcf_dict \<times> string list \<Rightarrow> error + (vcf_dict \<times> string list)" where
  "info_fields [] state = Inr state"
| "info_fields (info # infos) (vcf_dict, visited_keys) =
     (if CHR ''='' \<in> set info
      then (case py_split (CHR ''='') info of
              [key, val] \<Rightarrow>
                ebind (append_values vcf_dict key
                         (map convert_string (py_split (CHR '','') val))) (\<lambda>vcf_dict'.
                  info_fields infos (vcf_dict', visited_keys @ [key]))
            | _ \<Rightarrow> Inl ValueError)
      else info_fields infos (vcf_dict, visited_keys))"

text \<open>
  \<^verbatim>\<open>for key in [k for k in vcf_dict.keys() if k not in visited_keys]:
  vcf_dict[key].extend([None]*length_variants)\<close>
\<close>

definition pad_missing :: "nat \<Rightarrow> string list \<Rightarrow> vcf_dict \<Rightarrow> vcf_dict" where
  "pad_missing length_variants visited_keys vcf_dict =
     map (\<lambda>(key, vs). if key \<in> set visited_keys then (key, vs)
                       else (key, vs @ replicate length_variants PNone)) vcf_dict"

text \<open>The body of the loop \<^verbatim>\<open>for line in lines\<close> that fills the dictionary.\<close>

definition fill_line :: "string list \<Rightarrow> vcf_dict \<Rightarrow> string list \<Rightarrow> error + vcf_dict" where
  "fill_line header vcf_dict line =
     ebind (item line 4) (\<lambda>alt.
       let length_variants = length (py_split (CHR '','') alt) in
       ebind (canonical_columns (take 6 header) 0 line length_variants vcf_dict) (\<lambda>d1.
       ebind (item line 3) (\<lambda>ref.
       ebind (append_values d1 ''MUT_TYPE_''
                (map (\<lambda>mutation. PStr (mut_type ref mutation)) (py_split (CHR '','') alt)))
         (\<lambda>d2.
       ebind (item line 7) (\<lambda>info.
       ebind (info_fields (py_split (CHR '';'') info) (d2, take 6 header @ [''MUT_TYPE_'']))
         (\<lambda>(d3, visited_keys).
           Inr (pad_missing length_variants visited_keys d3)))))))"

fun fill_lines :: "string list \<Rightarrow> vcf_dict \<Rightarrow> string list list \<Rightarrow> error + vcf_dict" where
  "fill_lines header vcf_dict [] = Inr vcf_dict"
| "fill_lines header vcf_dict (line # lines) =
     ebind (fill_line header vcf_dict line) (\<lambda>vcf_dict'. fill_lines header vcf_dict' lines)"

text \<open>
  The loop before it, which gives every key of an INFO field an empty column:
  \<^verbatim>\<open>vcf_dict[info.split("=")[0]] = []\<close>.
\<close>

fun info_columns :: "string list list \<Rightarrow> vcf_dict \<Rightarrow> error + vcf_dict" where
  "info_columns [] vcf_dict = Inr vcf_dict"
| "info_columns (line # lines) vcf_dict =
     ebind (item line 7) (\<lambda>info.
       info_columns lines
         (fold (\<lambda>info d. if CHR ''='' \<in> set info
                           then AList.update (hd (py_split (CHR ''='') info)) [] d else d)
            (py_split (CHR '';'') info) vcf_dict))"

text \<open>
  \<^verbatim>\<open>read_vcf\<close>, on the lines of the file: the warnings printed, and the dictionary.
  Without a line that starts with \<^verbatim>\<open>#CHROM\<close> the dictionary is empty.
\<close>

datatype warning = NoHeader | NoVariants

definition read_vcf :: "string list \<Rightarrow> string \<Rightarrow> error + (warning list \<times> vcf_dict)" where
  "read_vcf vcf_file reference =
     (case filter (\<lambda>l. startswith l ''#CHROM'') vcf_file of
        [] \<Rightarrow> Inr ([NoHeader], [])
      | h # _ \<Rightarrow>
          let header = py_split (CHR 0x09) (strip h);
              lines = map (\<lambda>l. py_split (CHR 0x09) (strip l))
                        (filter (\<lambda>l. startswith l reference) vcf_file);
              warnings = (if lines = [] then [NoVariants] else []);
              d0 = fold (\<lambda>key d. AList.update key [] d) (take 6 header) [];
              d1 = AList.update ''MUT_TYPE_'' [] d0
          in ebind (info_columns lines d1) (\<lambda>d2.
             ebind (fill_lines header d2 lines) (\<lambda>d3. Inr (warnings, d3))))"

subsection \<open>The mutations of all samples\<close>

text \<open>
  A value in an f-string. The digits \<^verbatim>\<open>str\<close> gives a float are not modelled: the
  functions below take them as the parameter \<open>float_repr\<close>.
\<close>

fun nat_str :: "nat \<Rightarrow> string" where
  "nat_str n = (if n < 10 then [char_of (48 + n)] else nat_str (n div 10) @ [char_of (48 + n mod 10)])"

definition int_str :: "int \<Rightarrow> string" where
  "int_str n = (if n < 0 then CHR ''-'' # nat_str (nat (- n)) else nat_str (nat n))"

definition py_str :: "(rat \<Rightarrow> string) \<Rightarrow> pyval \<Rightarrow> string" where
  "py_str float_repr v =
     (case v of PInt n \<Rightarrow> int_str n | PFloat q \<Rightarrow> float_repr q | PStr s \<Rightarrow> s
      | PNone \<Rightarrow> ''None'')"

text \<open>\<^verbatim>\<open>vcf_dict[key][idx]\<close>, and \<^verbatim>\<open>vcf_dict["AF"][idx] >= threshold\<close>.\<close>

definition column_item :: "vcf_dict \<Rightarrow> string \<Rightarrow> nat \<Rightarrow> error + pyval" where
  "column_item vcf_dict key idx = ebind (lookup vcf_dict key) (\<lambda>column. item column idx)"

definition ge_threshold :: "pyval \<Rightarrow> rat \<Rightarrow> error + bool" where
  "ge_threshold af threshold =
     (case af of PInt n \<Rightarrow> Inr (threshold \<le> of_int n) | PFloat q \<Rightarrow> Inr (threshold \<le> q)
      | PStr s \<Rightarrow> Inl TypeError | PNone \<Rightarrow> Inl TypeError)"

text \<open>
  The body of \<^verbatim>\<open>for idx in range(0, len(vcf_dict["#CHROM"]))\<close>: the pair appended
  to \<^verbatim>\<open>frequency_list\<close>, or nothing below the threshold.
\<close>

definition mutation_label :: "(rat \<Rightarrow> string) \<Rightarrow> vcf_dict \<Rightarrow> nat \<Rightarrow> error + string" where
  "mutation_label float_repr vcf_dict idx =
     ebind (column_item vcf_dict ''POS'' idx) (\<lambda>pos.
     ebind (column_item vcf_dict ''REF'' idx) (\<lambda>ref.
     ebind (column_item vcf_dict ''ALT'' idx) (\<lambda>alt.
     ebind (column_item vcf_dict ''MUT_TYPE_'' idx) (\<lambda>mut_type.
       Inr (py_str float_repr pos @ ''_'' @ py_str float_repr ref @ ''_'' @
            py_str float_repr alt @ ''_'' @ py_str float_repr mut_type)))))"

definition frequency_entry ::
  "(rat \<Rightarrow> string) \<Rightarrow> vcf_dict \<Rightarrow> rat \<Rightarrow> bool \<Rightarrow> nat \<Rightarrow> error + (string \<times> pyval) list" where
  "frequency_entry float_repr vcf_dict threshold scores idx =
     ebind (column_item vcf_dict ''AF'' idx) (\<lambda>af.
     ebind (ge_threshold af threshold) (\<lambda>keep.
       if \<not> keep then Inr []
       else if scores
       then ebind (column_item vcf_dict ''EFF'' idx) (\<lambda>eff.
            ebind (case eff of
                     PNone \<Rightarrow> Inr ''-''
                   | PStr s \<Rightarrow> item (py_split (CHR ''|'') s) 3
                   | PInt n \<Rightarrow> Inl AttributeError
                   | PFloat q \<Rightarrow> Inl AttributeError) (\<lambda>aa_change.
            ebind (mutation_label float_repr vcf_dict idx) (\<lambda>label.
              Inr [(label @ ''_'' @ aa_change, af)])))
       else ebind (mutation_label float_repr vcf_dict idx) (\<lambda>label. Inr [(label, af)])))"

fun frequency_entries ::
  "(rat \<Rightarrow> string) \<Rightarrow> vcf_dict \<Rightarrow> rat \<Rightarrow> bool \<Rightarrow> nat list \<Rightarrow> error + (string \<times> pyval) list" where
  "frequency_entries float_repr vcf_dict threshold scores [] = Inr []"
| "frequency_entries float_repr vcf_dict threshold scores (idx # idxs) =
     ebind (frequency_entry float_repr vcf_dict threshold scores idx) (\<lambda>entry.
     ebind (frequency_entries float_repr vcf_dict threshold scores idxs) (\<lambda>entries.
       Inr (entry @ entries)))"

text \<open>
  The loop \<^verbatim>\<open>for file in vcf_files\<close>. A file is its name without directory and
  extension, and its lines. The dictionary of a file is used whatever \<^verbatim>\<open>read_vcf\<close>
  has warned about.
\<close>

type_synonym vcf_file = "string \<times> string list"

fun frequency_lists_of ::
  "(rat \<Rightarrow> string) \<Rightarrow> vcf_file list \<Rightarrow> string \<Rightarrow> rat \<Rightarrow> bool \<Rightarrow>
   error + (string \<times> pyval) list list" where
  "frequency_lists_of float_repr [] reference threshold scores = Inr []"
| "frequency_lists_of float_repr (file # files) reference threshold scores =
     ebind (read_vcf (snd file) reference) (\<lambda>(warnings, vcf_dict).
     ebind (lookup vcf_dict ''#CHROM'') (\<lambda>chrom.
     ebind (frequency_entries float_repr vcf_dict threshold scores [0..<length chrom])
       (\<lambda>frequency_list.
     ebind (frequency_lists_of float_repr files reference threshold scores) (\<lambda>frequency_lists.
       Inr (frequency_list # frequency_lists)))))"

text \<open>
  The keys \<^verbatim>\<open>int(x.split("_")[0])\<close> of the labels to sort; \<^verbatim>\<open>sorted\<close> computes all
  of them before it compares any.
\<close>

fun positions :: "string list \<Rightarrow> error + int list" where
  "positions [] = Inr []"
| "positions (x # xs) =
     ebind (mutation_position x) (\<lambda>key. ebind (positions xs) (\<lambda>keys. Inr (key # keys)))"

text \<open>
  \<^verbatim>\<open>extract_vcf_data\<close>. \<open>set_order\<close> is the order in which the set of the labels
  iterates, as in \<^verbatim>\<open>create_track_dict\<close>; \<^verbatim>\<open>sorted\<close> is stable.
\<close>

definition extract_vcf_data ::
  "(string list \<Rightarrow> string list) \<Rightarrow> (rat \<Rightarrow> string) \<Rightarrow> vcf_file list \<Rightarrow> string \<Rightarrow> rat \<Rightarrow> bool \<Rightarrow>
   error + ((string \<times> pyval) list list \<times> string list \<times> string list)" where
  "extract_vcf_data set_order float_repr vcf_files reference threshold scores =
     ebind (frequency_lists_of float_repr vcf_files reference threshold scores)
       (\<lambda>frequency_lists.
         let labels = set_order (concat (map (map fst) frequency_lists)) in
         ebind (positions labels) (\<lambda>keys.
           let unique_mutations = map snd (sort_key fst (zip keys labels)) in
           if unique_mutations = [] then Inl NoVariantsFound
           else Inr (frequency_lists, unique_mutations, map fst vcf_files)))"

subsection \<open>Parsing a GFF3 file\<close>

text \<open>
  The state of the loop over the lines: the dictionary, and the local variable
  \<^verbatim>\<open>attribute_id\<close>, which is unbound (\<open>None\<close>) until an \<^verbatim>\<open>ID\<close> attribute sets it
  and keeps its value from one line to the next.
\<close>

type_synonym gff3_state = "gff3 \<times> string option"

text \<open>
  \<^verbatim>\<open>gff3_dict[gff_values[2]][attribute_id][key] = v\<close>: reading an unbound
  \<^verbatim>\<open>attribute_id\<close> raises \<^verbatim>\<open>UnboundLocalError\<close>, a missing type or id \<^verbatim>\<open>KeyError\<close>.
\<close>

definition set_attribute ::
  "gff3 \<Rightarrow> string \<Rightarrow> string option \<Rightarrow> string \<Rightarrow> gval \<Rightarrow> error + gff3" where
  "set_attribute gff3_dict type attribute_id key v =
     ebind (lookup gff3_dict type) (\<lambda>features.
       case attribute_id of
         None \<Rightarrow> Inl UnboundLocalError
       | Some fid \<Rightarrow>
           ebind (lookup features fid) (\<lambda>attrs.
             Inr (AList.update type (AList.update fid (AList.update key v attrs) features)
                    gff3_dict)))"

text \<open>
  The body of \<^verbatim>\<open>for attribute in gff_values[8].split(";")\<close>. The unpacking
  \<^verbatim>\<open>identifier, val = attribute.split("=")\<close> raises \<^verbatim>\<open>ValueError\<close> unless there are
  two parts; an \<^verbatim>\<open>ID\<close> starts a new, empty entry when the dictionary has no feature
  type called \<^verbatim>\<open>ID\<close>.
\<close>

definition parse_attribute :: "string \<Rightarrow> gff3_state \<Rightarrow> string \<Rightarrow> error + gff3_state" where
  "parse_attribute type state attribute =
     (case py_split (CHR ''='') attribute of
        [identifier, val] \<Rightarrow>
          (let (gff3_dict, attribute_id) = state in
           if identifier = ''ID''
           then (if map_of gff3_dict ''ID'' = None
                 then ebind (lookup gff3_dict type) (\<lambda>features.
                        Inr (AList.update type (AList.update val [] features) gff3_dict,
                             Some val))
                 else Inr state)
           else ebind (set_attribute gff3_dict type attribute_id identifier (GStr val))
                  (\<lambda>gff3_dict'. Inr (gff3_dict', attribute_id)))
      | _ \<Rightarrow> Inl ValueError)"

fun parse_attributes :: "string \<Rightarrow> gff3_state \<Rightarrow> string list \<Rightarrow> error + gff3_state" where
  "parse_attributes type state [] = Inr state"
| "parse_attributes type state (attribute # attributes) =
     ebind (parse_attribute type state attribute) (\<lambda>state'.
       parse_attributes type state' attributes)"

text \<open>
  The body of \<^verbatim>\<open>for line in gff3_file\<close>. A line that does not start with the
  reference is skipped, and so is one whose ninth field does not start with
  \<^verbatim>\<open>ID=\<close>; \<^verbatim>\<open>gff_values[8]\<close> raises on a line of fewer than nine fields.
\<close>

definition parse_line :: "string \<Rightarrow> gff3_state \<Rightarrow> string \<Rightarrow> error + gff3_state" where
  "parse_line reference state line =
     (if \<not> startswith line reference then Inr state
      else let gff_values = py_split (CHR 0x09) (strip line) in
        if length gff_values \<le> 8 then Inl IndexError
        else if \<not> startswith (gff_values ! 8) ''ID='' then Inr state
        else let (gff3_dict, attribute_id) = state;
                 type = gff_values ! 2;
                 gff3_dict' = (if map_of gff3_dict type = None
                               then AList.update type [] gff3_dict else gff3_dict)
             in ebind (parse_attributes type (gff3_dict', attribute_id)
                         (py_split (CHR '';'') (gff_values ! 8))) (\<lambda>(d, attribute_id').
                ebind (py_int (gff_values ! 3)) (\<lambda>start.
                ebind (set_attribute d type attribute_id' ''start'' (GInt start)) (\<lambda>d1.
                ebind (py_int (gff_values ! 4)) (\<lambda>stop.
                ebind (set_attribute d1 type attribute_id' ''stop'' (GInt stop)) (\<lambda>d2.
                ebind (set_attribute d2 type attribute_id' ''strand'' (GStr (gff_values ! 6)))
                  (\<lambda>d3. Inr (d3, attribute_id'))))))))"

fun parse_lines :: "string \<Rightarrow> gff3_state \<Rightarrow> string list \<Rightarrow> error + gff3_state" where
  "parse_lines reference state [] = Inr state"
| "parse_lines reference state (line # lines) =
     ebind (parse_line reference state line) (\<lambda>state'. parse_lines reference state' lines)"

text \<open>The lines on which the loop body leaves through one of its two \<^verbatim>\<open>continue\<close>.\<close>

definition skipped :: "string \<Rightarrow> string \<Rightarrow> bool" where
  "skipped reference line =
     (if \<not> startswith line reference then True
      else let gff_values = py_split (CHR 0x09) (strip line) in
        8 < length gff_values \<and> \<not> startswith (gff_values ! 8) ''ID='')"

text \<open>
  The lines that pass both tests, and so reach the assignments to the dictionary: they
  start with the reference and have a ninth field, which starts with \<^verbatim>\<open>ID=\<close>.
\<close>

definition indexed :: "string \<Rightarrow> string \<Rightarrow> bool" where
  "indexed reference line =
     (startswith line reference \<and>
      (let gff_values = py_split (CHR 0x09) (strip line) in
         8 < length gff_values \<and> startswith (gff_values ! 8) ''ID=''))"

text \<open>
  \<^verbatim>\<open>parse_gff3\<close>, on the lines of the file (each with its line end): an empty
  dictionary after the loop is the \<^verbatim>\<open>sys.exit\<close> for a reference that was not found.
\<close>

definition parse_gff3 :: "string list \<Rightarrow> string \<Rightarrow> error + gff3" where
  "parse_gff3 file reference =
     ebind (parse_lines reference ([], None) file) (\<lambda>(gff3_dict, attribute_id).
       if gff3_dict = [] then Inl ReferenceNotFound else Inr gff3_dict)"

subsection \<open>Gene tracks\<close>

text \<open>A gene with a mutation: \<^verbatim>\<open>(attribute_name, start, stop, strand)\<close>.\<close>

type_synonym gene = "gval \<times> int \<times> int \<times> gval"

text \<open>
  The body of the loop over the annotations of one type, for the mutation at
  position \<^verbatim>\<open>mutation\<close>: \<^verbatim>\<open>mutation in range(start, stop)\<close> needs both entries
  (\<^verbatim>\<open>KeyError\<close>) and both integers (\<^verbatim>\<open>TypeError\<close>).
\<close>

definition as_int :: "gval \<Rightarrow> error + int" where
  "as_int v = (case v of GInt n \<Rightarrow> Inr n | GStr s \<Rightarrow> Inl TypeError)"

definition gene_of_annotation :: "int \<Rightarrow> string \<Rightarrow> attributes \<Rightarrow> error + gene list" where
  "gene_of_annotation mutation annotation attrs =
     ebind (lookup attrs ''start'') (\<lambda>start_v.
     ebind (lookup attrs ''stop'') (\<lambda>stop_v.
     ebind (as_int start_v) (\<lambda>start.
     ebind (as_int stop_v) (\<lambda>stop.
       if start \<le> mutation \<and> mutation < stop
       then let attribute_name =
                  (case map_of attrs ''Name'' of Some n \<Rightarrow> n | None \<Rightarrow> GStr annotation)
            in ebind (lookup attrs ''strand'') (\<lambda>strand.
                 Inr [(attribute_name, start, stop, strand)])
       else Inr []))))"

fun genes_of_annotations :: "int \<Rightarrow> (string \<times> attributes) list \<Rightarrow> error + gene list" where
  "genes_of_annotations mutation [] = Inr []"
| "genes_of_annotations mutation ((annotation, attrs) # annotations) =
     ebind (gene_of_annotation mutation annotation attrs) (\<lambda>found.
     ebind (genes_of_annotations mutation annotations) (\<lambda>more. Inr (found @ more)))"

text \<open>\<^verbatim>\<open>for type in annotation_type\<close>, skipping the types the index does not have.\<close>

fun genes_of_types :: "int \<Rightarrow> gff3 \<Rightarrow> string list \<Rightarrow> error + gene list" where
  "genes_of_types mutation gff3_info [] = Inr []"
| "genes_of_types mutation gff3_info (type # types) =
     ebind (case map_of gff3_info type of
              None \<Rightarrow> Inr []
            | Some annotations \<Rightarrow> genes_of_annotations mutation annotations) (\<lambda>found.
     ebind (genes_of_types mutation gff3_info types) (\<lambda>more. Inr (found @ more)))"

text \<open>
  \<^verbatim>\<open>for mutation in unique_mutations\<close>: the tuples added to the set
  \<^verbatim>\<open>genes_with_mutations\<close>, in the order they are added.
\<close>

fun genes_of_mutations :: "string list \<Rightarrow> gff3 \<Rightarrow> string list \<Rightarrow> error + gene list" where
  "genes_of_mutations [] gff3_info annotation_type = Inr []"
| "genes_of_mutations (mutation # mutations) gff3_info annotation_type =
     ebind (mutation_position mutation) (\<lambda>pos.
     ebind (genes_of_types pos gff3_info annotation_type) (\<lambda>found.
     ebind (genes_of_mutations mutations gff3_info annotation_type) (\<lambda>more.
       Inr (found @ more))))"

text \<open>
  The loop \<^verbatim>\<open>while gene_dict[gene][0][0] < track_stops[track]\<close>, from the gene's
  start, the stops of the tracks and the track reached: the track found, and the
  stops with a new track appended when the loop left through \<^verbatim>\<open>break\<close>.
\<close>

function find_track :: "int \<Rightarrow> int list \<Rightarrow> nat \<Rightarrow> error + (int list \<times> nat)" where
  "find_track start track_stops track =
     (if length track_stops \<le> track then Inl IndexError
      else if start < track_stops ! track
      then (if length track_stops \<le> track + 1
            then Inr (track_stops @ [0], track + 1)
            else find_track start track_stops (track + 1))
      else Inr (track_stops, track))"
  by pat_completeness auto
termination
  by (relation "measure (\<lambda>(start, track_stops, track). length track_stops - track)") auto

text \<open>
  \<^verbatim>\<open>for gene in gene_dict\<close>: each gene gets its track, and the track's stop becomes
  the gene's stop (\<^verbatim>\<open>track_stops[track] = gene_dict[gene][0][1]\<close>).
\<close>

fun assign_tracks ::
  "(gval \<times> int \<times> int \<times> gval) list \<Rightarrow> int list \<Rightarrow>
   error + ((gval \<times> (int \<times> int \<times> gval) \<times> nat) list \<times> int list)" where
  "assign_tracks [] track_stops = Inr ([], track_stops)"
| "assign_tracks ((gene, location) # genes) track_stops =
     ebind (find_track (fst location) track_stops 0) (\<lambda>(track_stops', track).
       if length track_stops' \<le> track then Inl IndexError
       else ebind (assign_tracks genes (track_stops'[track := fst (snd location)]))
              (\<lambda>(entries, track_stops''). Inr ((gene, location, track) # entries, track_stops'')))"

text \<open>
  Sorting the items by \<^verbatim>\<open>x[1][0]\<close>, the tuple \<^verbatim>\<open>(start, stop, strand)\<close>, compares the
  strands of two items with the same start and stop; a string and an integer there
  raise \<^verbatim>\<open>TypeError\<close>.
\<close>

definition comparable :: "(gval \<times> int \<times> int \<times> gval) list \<Rightarrow> bool" where
  "comparable gene_dict =
     list_all (\<lambda>(g, start, stop, strand).
       list_all (\<lambda>(g', start', stop', strand').
         start = start' \<and> stop = stop' \<longrightarrow> same_type strand strand') gene_dict) gene_dict"

text \<open>
  From the set \<^verbatim>\<open>genes_with_mutations\<close>, listed in the order the set iterates:
  the dictionary \<^verbatim>\<open>{element[0]: [element[1:4]] ...}\<close> keyed by the name, sorted, and
  the tracks assigned. The result is \<^verbatim>\<open>gene_dict\<close>, whose items are
  \<^verbatim>\<open>name: [(start, stop, strand), track]\<close>, and \<^verbatim>\<open>len(track_stops)\<close>.
\<close>

definition track_dict_of ::
  "gene list \<Rightarrow> error + ((gval \<times> (int \<times> int \<times> gval) \<times> nat) list \<times> nat)" where
  "track_dict_of genes_with_mutations =
     (let gene_dict = fold (\<lambda>element d. AList.update (fst element) (snd element) d)
                        genes_with_mutations []
      in if \<not> comparable gene_dict then Inl TypeError
         else ebind (assign_tracks (sort_key snd gene_dict) [0])
                (\<lambda>(entries, track_stops). Inr (entries, length track_stops)))"

text \<open>
  \<^verbatim>\<open>create_track_dict\<close>. The order in which a Python set iterates is not fixed by
  the language: \<open>set_order\<close> gives it, from the elements in the order they were
  added. It lists every element added once.
\<close>

definition iterates :: "('a list \<Rightarrow> 'a list) \<Rightarrow> 'a list \<Rightarrow> bool" where
  "iterates set_order added =
     (distinct (set_order added) \<and> set (set_order added) = set added)"

definition create_track_dict ::
  "(gene list \<Rightarrow> gene list) \<Rightarrow> string list \<Rightarrow> gff3 \<Rightarrow> string list \<Rightarrow>
   error + ((gval \<times> (int \<times> int \<times> gval) \<times> nat) list \<times> nat)" where
  "create_track_dict set_order unique_mutations gff3_info annotation_type =
     ebind (genes_of_mutations unique_mutations gff3_info annotation_type) (\<lambda>added.
       if added = [] then Inr ([], 0)
       else track_dict_of (set_order added))"

subsection \<open>The greedy track assignment as the specification words it\<close>

text \<open>
  These two definitions follow the specification, not the code: the first track
  whose last occupied stop is at most the gene's start (the number of tracks when no
  track qualifies), and the assignment that opens a new track, with stop 0, when none
  qualifies and then sets the track's last stop to the gene's stop.
\<close>

definition first_fit_spec :: "int list \<Rightarrow> int \<Rightarrow> nat" where
  "first_fit_spec last_stops start =
     length (takeWhile (\<lambda>last_stop. \<not> last_stop \<le> start) last_stops)"

fun greedy_tracks_spec ::
  "(gval \<times> int \<times> int \<times> gval) list \<Rightarrow> int list \<Rightarrow>
   (gval \<times> (int \<times> int \<times> gval) \<times> nat) list \<times> int list" where
  "greedy_tracks_spec [] last_stops = ([], last_stops)"
| "greedy_tracks_spec ((gene, start, stop, strand) # genes) last_stops =
     (let track = first_fit_spec last_stops start;
          opened = (if track < length last_stops then last_stops else last_stops @ [0]);
          (entries, final) = greedy_tracks_spec genes (opened[track := stop])
      in ((gene, (start, stop, strand), track) # entries, final))"

section \<open>Verified properties\<close>

subsection \<open>Deleting columns\<close>

lemma keep_columns_nths: "keep_columns del xs = nths xs (- set del)"
proof -
  have "nths xs (- set del) = map fst (filter (\<lambda>p. snd p \<notin> set del) (zip xs [0..<length xs]))"
    by (simp add: nths_def)
  also have "\<dots> = map (\<lambda>i. xs ! i) (filter (\<lambda>i. i \<notin> set del) [0..<length xs])"
    by (induction xs rule: rev_induct) (auto simp: nth_append)
  finally show ?thesis by (simp add: keep_columns_def)
qed

lemma nths_cong_below:
  "(\<And>i. i < length xs \<Longrightarrow> (i \<in> A) = (i \<in> B)) \<Longrightarrow> nths xs A = nths xs B"
  unfolding nths_def
  by (rule arg_cong[where f="map fst"], rule filter_cong) (auto dest: in_set_zipE simp: set_zip)

lemma del_index_keep:
  assumes "d < length xs" "\<forall>i\<in>D. i < d"
  shows "nths (take d xs @ drop (Suc d) xs) (- D) = nths xs (- insert d D)"
proof -
  have xs: "xs = take d xs @ (xs ! d # drop (Suc d) xs)"
    using assms(1) by (simp add: id_take_nth_drop[symmetric])
  have l: "length (take d xs) = d" using assms(1) by simp
  have a: "nths (take d xs) (- D) = nths (take d xs) (- insert d D)"
    by (rule nths_cong_below) (use l in auto)
  have b: "nths (drop (Suc d) xs) {j. j + d \<in> - D} = drop (Suc d) xs"
    using assms(2) by (intro nths_all) auto
  have c: "nths (xs ! d # drop (Suc d) xs) {j. j + d \<in> - insert d D} = drop (Suc d) xs"
    using assms(2) by (auto simp: nths_Cons intro!: nths_all)
  have "nths xs (- insert d D) = nths (take d xs) (- insert d D) @ nths (xs ! d # drop (Suc d) xs) {j. j + d \<in> - insert d D}"
  proof -
    have "nths (take d xs @ (xs ! d # drop (Suc d) xs)) (- insert d D) =
          nths (take d xs) (- insert d D) @ nths (xs ! d # drop (Suc d) xs) {j. j + d \<in> - insert d D}"
      unfolding nths_append l ..
    then show ?thesis using xs by simp
  qed
  also have "\<dots> = nths (take d xs) (- D) @ drop (Suc d) xs"
    using a c by simp
  also have "\<dots> = nths (take d xs @ drop (Suc d) xs) (- D)"
    using b assms(1) by (simp add: nths_append min_absorb2)
  finally show ?thesis by simp
qed

lemma del_indices_desc:
  "sorted (rev ds) \<Longrightarrow> distinct ds \<Longrightarrow> \<forall>d\<in>set ds. d < length xs \<Longrightarrow>
   del_indices ds xs = Inr (nths xs (- set ds))"
proof (induction ds arbitrary: xs)
  case Nil
  then show ?case by (simp add: nths_all)
next
  case (Cons d ds)
  have "\<forall>i\<in>set ds. i \<le> d"
    using Cons.prems(1) by (simp add: sorted_append)
  moreover have "d \<notin> set ds" using Cons.prems(2) by simp
  ultimately have lt: "\<forall>i\<in>set ds. i < d"
    by (metis order_le_imp_less_or_eq)
  have d: "d < length xs" using Cons.prems(3) by simp
  let ?xs' = "take d xs @ drop (Suc d) xs"
  have "length ?xs' = length xs - 1" using d by simp
  then have "\<forall>i\<in>set ds. i < length ?xs'" using lt d by auto
  moreover have "sorted (rev ds)" "distinct ds" using Cons.prems(1,2) by (auto simp: sorted_append)
  ultimately have "del_indices ds ?xs' = Inr (nths ?xs' (- set ds))"
    using Cons.IH by blast
  then show ?case
    using d del_index_keep[OF d lt] by (simp add: del_index_def)
qed

lemma del_indices_fail:
  "ds \<noteq> [] \<Longrightarrow> \<not> hd ds < length xs \<Longrightarrow> del_indices ds xs = Inl IndexError"
  by (cases ds) (auto simp: del_index_def)

lemma keep_columns_Nil [simp]: "keep_columns [] row = row"
  by (simp add: keep_columns_def map_nth)

lemma mut_to_del_of_Inr:
  assumes "mut_to_del_of test frequency_array = Inr mut_to_del"
  shows "frequency_array \<noteq> []"
    and "mut_to_del = filter (\<lambda>idx. test (map (\<lambda>row. row ! idx) frequency_array))
            [0..<length (hd frequency_array)]"
  using assms by (auto simp: mut_to_del_of_def split: list.splits if_splits)

lemma np_delete_Inr:
  assumes "np_delete frequency_array mut_to_del = Inr result"
  shows "result = map (keep_columns mut_to_del) frequency_array"
    and "\<forall>row\<in>set frequency_array. length row = length (hd frequency_array)"
  using assms by (auto simp: np_delete_def list_all_iff split: if_splits)

lemma delete_columns_Inr:
  assumes "delete_columns test frequency_array unique_mutations = Inr (axis', result)"
  obtains mut_to_del where
    "mut_to_del_of test frequency_array = Inr mut_to_del"
    "del_indices (rev (sort mut_to_del)) unique_mutations = Inr axis'"
    "np_delete frequency_array mut_to_del = Inr result"
  using assms by (auto simp: delete_columns_def split: sum.splits)

lemma survivors_not_selected:
  assumes "mut_to_del_of test frequency_array = Inr mut_to_del"
    and "np_delete frequency_array mut_to_del = Inr result"
  shows "mut_to_del_of test result = Inr []"
proof -
  let ?n = "length (hd frequency_array)"
  let ?kept = "filter (\<lambda>i. i \<notin> set mut_to_del) [0..<?n]"
  note m = mut_to_del_of_Inr[OF assms(1)]
  note d = np_delete_Inr[OF assms(2)]
  have rows: "\<And>row. row \<in> set frequency_array \<Longrightarrow> keep_columns mut_to_del row = map (\<lambda>i. row ! i) ?kept"
    using d(2) by (simp add: keep_columns_def)
  have res: "result = map (\<lambda>row. map (\<lambda>i. row ! i) ?kept) frequency_array"
    using d(1) rows by simp
  obtain row0 rest where fa: "frequency_array = row0 # rest"
    using m(1) by (cases frequency_array) auto
  have len: "\<forall>r\<in>set result. length r = length ?kept"
    using res by auto
  have hd: "length (hd result) = length ?kept"
    using res fa by simp
  have col: "map (\<lambda>r. r ! j) result = map (\<lambda>row. row ! (?kept ! j)) frequency_array"
    if "j < length ?kept" for j
    using that res by simp
  have no: "\<not> test (map (\<lambda>r. r ! j) result)" if j: "j < length ?kept" for j
  proof -
    have "?kept ! j \<in> set ?kept" using j by (rule nth_mem)
    then have "?kept ! j < ?n" "?kept ! j \<notin> set mut_to_del" by auto
    then have "\<not> test (map (\<lambda>row. row ! (?kept ! j)) frequency_array)"
      using m(2) by auto
    then show ?thesis using col[OF j] by simp
  qed
  have "filter (\<lambda>idx. test (map (\<lambda>r. r ! idx) result)) [0..<length ?kept] = []"
    using no by (auto simp: filter_empty_conv)
  moreover have "result \<noteq> []" using res fa by simp
  ultimately show ?thesis
  proof (cases result)
    case Nil
    then show ?thesis using \<open>result \<noteq> []\<close> by simp
  next
    case (Cons r rs)
    have "list_all (\<lambda>frequency_list. length r \<le> length frequency_list) result"
      using len hd Cons by (simp add: list_all_iff)
    moreover have "filter (\<lambda>idx. test (map (\<lambda>r. r ! idx) result)) [0..<length r] = []"
      using \<open>filter (\<lambda>idx. test (map (\<lambda>r. r ! idx) result)) [0..<length ?kept] = []\<close> hd Cons
      by simp
    ultimately show ?thesis
      unfolding mut_to_del_of_def Cons[symmetric] by (simp add: Cons)
  qed
qed

lemma delete_columns_again:
  assumes "delete_columns test frequency_array unique_mutations = Inr (axis', result)"
  shows "mut_to_del_of test result = Inr [] \<and>
         delete_columns test result axis' = Inr (axis', result)"
proof -
  from assms obtain mut_to_del where
    m: "mut_to_del_of test frequency_array = Inr mut_to_del" and
    n: "np_delete frequency_array mut_to_del = Inr result"
    by (rule delete_columns_Inr)
  have s: "mut_to_del_of test result = Inr []"
    using m n by (rule survivors_not_selected)
  have "\<forall>r\<in>set result. length r = length (hd result)"
  proof -
    obtain row0 rest where fa: "frequency_array = row0 # rest"
      using mut_to_del_of_Inr(1)[OF m] by (cases frequency_array) auto
    have "\<forall>row\<in>set frequency_array. length (keep_columns mut_to_del row) = length (keep_columns mut_to_del row0)"
      using np_delete_Inr(2)[OF n] fa by (simp add: keep_columns_def)
    then show ?thesis
      using np_delete_Inr(1)[OF n] fa by simp
  qed
  then have "np_delete result [] = Inr result"
    by (simp add: np_delete_def list_all_iff map_idI)
  then show ?thesis
    using s by (simp add: delete_columns_def)
qed

lemma mut_to_del_sorted:
  assumes "mut_to_del_of test frequency_array = Inr mut_to_del"
  shows "sorted mut_to_del" "distinct mut_to_del"
  using mut_to_del_of_Inr(2)[OF assms] by (simp_all add: sorted_wrt_filter)

lemma delete_columns_axis:
  assumes "delete_columns test frequency_array unique_mutations = Inr (axis', result)"
  shows "\<exists>mut_to_del. mut_to_del_of test frequency_array = Inr mut_to_del \<and>
           set mut_to_del \<subseteq> {..<length unique_mutations} \<and>
           axis' = keep_columns mut_to_del unique_mutations \<and>
           result = map (keep_columns mut_to_del) frequency_array \<and>
           length axis' + length mut_to_del = length unique_mutations"
proof -
  from assms obtain mut_to_del where
    m: "mut_to_del_of test frequency_array = Inr mut_to_del" and
    d: "del_indices (rev (sort mut_to_del)) unique_mutations = Inr axis'" and
    n: "np_delete frequency_array mut_to_del = Inr result"
    by (rule delete_columns_Inr)
  note sd = mut_to_del_sorted[OF m]
  have rs: "rev (sort mut_to_del) = rev mut_to_del"
    using sd(1) by (simp add: sorted_sort_id)
  have inr: "\<forall>i\<in>set mut_to_del. i < length unique_mutations"
  proof (cases mut_to_del rule: rev_cases)
    case Nil
    then show ?thesis by simp
  next
    case (snoc ds x)
    have "x < length unique_mutations"
      using d rs snoc by (auto simp: del_index_def split: if_splits)
    moreover have "\<forall>i\<in>set ds. i \<le> x" using sd(1) snoc by (simp add: sorted_append)
    ultimately show ?thesis using snoc by auto
  qed
  have "del_indices (rev mut_to_del) unique_mutations = Inr (nths unique_mutations (- set (rev mut_to_del)))"
    using sd inr by (intro del_indices_desc) auto
  then have ax: "axis' = keep_columns mut_to_del unique_mutations"
    using d rs by (simp add: keep_columns_nths)
  have "length (nths unique_mutations (- set mut_to_del)) = card {i. i < length unique_mutations \<and> i \<notin> set mut_to_del}"
    by (simp add: length_nths)
  also have "{i. i < length unique_mutations \<and> i \<notin> set mut_to_del} = {..<length unique_mutations} - set mut_to_del"
    by auto
  also have "card \<dots> = length unique_mutations - length mut_to_del"
    using inr sd(2) by (subst card_Diff_subset) (auto simp: distinct_card)
  finally have "length axis' = length unique_mutations - length mut_to_del"
    using ax by (simp add: keep_columns_nths)
  moreover have "length mut_to_del \<le> length unique_mutations"
  proof -
    have "card (set mut_to_del) \<le> card {..<length unique_mutations}"
      using inr by (intro card_mono) auto
    then show ?thesis using sd(2) by (simp add: distinct_card)
  qed
  ultimately show ?thesis
    using m ax np_delete_Inr(1)[OF n] inr by auto
qed

lemma common_column_iff:
  "common_column check_all \<longleftrightarrow>
     list_all cell_eq0 check_all \<or>
     (list_all cell_gt0 check_all \<and>
      py_max (map num_of check_all) - py_min (map num_of check_all) < 1 / 2)"
  by (simp add: common_column_def)

text \<open>
  C7: the zero/common filter is idempotent. When \<^verbatim>\<open>delete_common_mutations\<close> returns,
  no column of the array it returns is selected for deletion (no surviving column is
  all zero, and none is all positive with \<^verbatim>\<open>max - min < 0.5\<close>), and a second call on
  the array and the axis it produced deletes nothing and returns them as they are.
\<close>
theorem delete_common_mutations_idempotent:
  assumes "delete_common_mutations frequency_array unique_mutations = Inr (axis', result)"
  shows "mut_to_del_of common_column result = Inr [] \<and>
         delete_common_mutations result axis' = Inr (axis', result) \<and>
         (\<forall>idx<length (hd result).
            \<not> list_all cell_eq0 (map (\<lambda>row. row ! idx) result) \<and>
            \<not> (list_all cell_gt0 (map (\<lambda>row. row ! idx) result) \<and>
               py_max (map num_of (map (\<lambda>row. row ! idx) result)) -
               py_min (map num_of (map (\<lambda>row. row ! idx) result)) < 1 / 2))"
proof -
  have a: "mut_to_del_of common_column result = Inr [] \<and>
        delete_columns common_column result axis' = Inr (axis', result)"
    using assms unfolding delete_common_mutations_def by (rule delete_columns_again)
  have b: "\<not> common_column (map (\<lambda>row. row ! idx) result)" if "idx < length (hd result)" for idx
  proof -
    have "filter (\<lambda>idx. common_column (map (\<lambda>row. row ! idx) result)) [0..<length (hd result)] = []"
      using mut_to_del_of_Inr(2)[of common_column result "[]"] a by simp
    then show ?thesis using that by (simp add: filter_empty_conv)
  qed
  have c: "delete_common_mutations result axis' = Inr (axis', result)"
    using a by (simp add: delete_common_mutations_def)
  show ?thesis
    using a c b unfolding common_column_iff by blast
qed

theorem delete_common_mutations_idempotent_witness:
  "delete_common_mutations
     [[Some 0, Some (4 / 5), Some (1 / 2)], [Some 0, Some (7 / 10), Some 0]]
     [''1_A_T_SNV'', ''2_C_G_SNV'', ''3_G_GA_INS''] =
     Inr ([''3_G_GA_INS''], [[Some (1 / 2)], [Some 0]]) \<and>
   delete_common_mutations [[Some (1 / 2)], [Some 0]] [''3_G_GA_INS''] =
     Inr ([''3_G_GA_INS''], [[Some (1 / 2)], [Some 0]])"
proof -
  have h: "delete_common_mutations
     [[Some 0, Some (4 / 5), Some (1 / 2)], [Some 0, Some (7 / 10), Some 0]]
     [''1_A_T_SNV'', ''2_C_G_SNV'', ''3_G_GA_INS''] =
     Inr ([''3_G_GA_INS''], [[Some (1 / 2)], [Some 0]])"
    by code_simp
  show ?thesis
    using h delete_common_mutations_idempotent[OF h] by simp
qed

lemma delete_columns_in_place:
  assumes "delete_columns test frequency_array unique_mutations = Inr (axis', result)"
  shows "\<exists>mut_to_del. mut_to_del_of test frequency_array = Inr mut_to_del \<and>
           axis' = keep_columns mut_to_del unique_mutations \<and>
           result = map (keep_columns mut_to_del) frequency_array \<and>
           (axis' = unique_mutations \<longleftrightarrow> mut_to_del = [])"
proof -
  from delete_columns_axis[OF assms] obtain mut_to_del where
    m: "mut_to_del_of test frequency_array = Inr mut_to_del"
      "axis' = keep_columns mut_to_del unique_mutations"
      "result = map (keep_columns mut_to_del) frequency_array"
      "length axis' + length mut_to_del = length unique_mutations"
    by blast
  have "axis' = unique_mutations \<longleftrightarrow> mut_to_del = []"
  proof
    assume "axis' = unique_mutations"
    then show "mut_to_del = []" using m(4) by simp
  next
    assume "mut_to_del = []"
    then show "axis' = unique_mutations" using m(2) by simp
  qed
  then show ?thesis using m by blast
qed

text \<open>
  C8 (as amended): both filters return a new array and delete from the caller's
  \<^verbatim>\<open>unique_mutations\<close> list in place. After a successful call the list holds the
  labels of the columns kept, in order, and the array returned is the input without
  the deleted columns; the list is unchanged exactly when no column was selected.
\<close>
theorem filters_delete_from_axis_in_place:
  "(delete_common_mutations frequency_array unique_mutations = Inr (axis', result) \<longrightarrow>
      (\<exists>mut_to_del. mut_to_del_of common_column frequency_array = Inr mut_to_del \<and>
         axis' = keep_columns mut_to_del unique_mutations \<and>
         result = map (keep_columns mut_to_del) frequency_array \<and>
         (axis' = unique_mutations \<longleftrightarrow> mut_to_del = []))) \<and>
   (delete_n_mutations frequency_array unique_mutations min_mut = Inr (axis', result) \<longrightarrow>
      (\<exists>mut_to_del. mut_to_del_of (rare_column min_mut) frequency_array = Inr mut_to_del \<and>
         axis' = keep_columns mut_to_del unique_mutations \<and>
         result = map (keep_columns mut_to_del) frequency_array \<and>
         (axis' = unique_mutations \<longleftrightarrow> mut_to_del = [])))"
proof (intro conjI impI)
  assume "delete_common_mutations frequency_array unique_mutations = Inr (axis', result)"
  then show "\<exists>mut_to_del. mut_to_del_of common_column frequency_array = Inr mut_to_del \<and>
         axis' = keep_columns mut_to_del unique_mutations \<and>
         result = map (keep_columns mut_to_del) frequency_array \<and>
         (axis' = unique_mutations \<longleftrightarrow> mut_to_del = [])"
    unfolding delete_common_mutations_def by (rule delete_columns_in_place)
next
  assume "delete_n_mutations frequency_array unique_mutations min_mut = Inr (axis', result)"
  then show "\<exists>mut_to_del. mut_to_del_of (rare_column min_mut) frequency_array = Inr mut_to_del \<and>
         axis' = keep_columns mut_to_del unique_mutations \<and>
         result = map (keep_columns mut_to_del) frequency_array \<and>
         (axis' = unique_mutations \<longleftrightarrow> mut_to_del = [])"
    unfolding delete_n_mutations_def by (rule delete_columns_in_place)
qed

theorem filters_delete_from_axis_in_place_witness:
  "delete_n_mutations [[Some 0, Some (1 / 2)], [Some (1 / 4), Some (3 / 4)]]
      [''1_A_T_SNV'', ''2_C_G_SNV''] 1 = Inr ([''2_C_G_SNV''], [[Some (1 / 2)], [Some (3 / 4)]]) \<and>
   (\<exists>mut_to_del.
      mut_to_del_of (rare_column 1) [[Some 0, Some (1 / 2)], [Some (1 / 4), Some (3 / 4)]] =
        Inr mut_to_del \<and>
      [''2_C_G_SNV''] = keep_columns mut_to_del [''1_A_T_SNV'', ''2_C_G_SNV''] \<and>
      mut_to_del \<noteq> [])"
proof -
  have h: "delete_n_mutations [[Some 0, Some (1 / 2)], [Some (1 / 4), Some (3 / 4)]]
      [''1_A_T_SNV'', ''2_C_G_SNV''] 1 = Inr ([''2_C_G_SNV''], [[Some (1 / 2)], [Some (3 / 4)]])"
    by code_simp
  from filters_delete_from_axis_in_place[THEN conjunct2, THEN mp, OF h]
  obtain mut_to_del where
    "mut_to_del_of (rare_column 1) [[Some 0, Some (1 / 2)], [Some (1 / 4), Some (3 / 4)]] =
        Inr mut_to_del"
    "[''2_C_G_SNV''] = keep_columns mut_to_del [''1_A_T_SNV'', ''2_C_G_SNV'']"
    "([''2_C_G_SNV''] = [''1_A_T_SNV'', ''2_C_G_SNV'']) = (mut_to_del = [])"
    by blast
  then show ?thesis using h by auto
qed

text \<open>
  The claim as stated fails: a call that deletes a column leaves the axis list it was
  given one entry shorter.
\<close>

theorem filters_mutate_axis_counterexample:
  "delete_common_mutations [[Some 0, Some (1 / 2)], [Some 0, Some 0]]
      [''1_A_T_SNV'', ''2_C_G_SNV''] = Inr ([''2_C_G_SNV''], [[Some (1 / 2)], [Some 0]]) \<and>
   delete_n_mutations [[Some 0, Some (1 / 2)], [Some (1 / 4), Some (3 / 4)]]
      [''1_A_T_SNV'', ''2_C_G_SNV''] 1 = Inr ([''2_C_G_SNV''], [[Some (1 / 2)], [Some (3 / 4)]]) \<and>
   [''2_C_G_SNV''] \<noteq> [''1_A_T_SNV'', ''2_C_G_SNV'']"
  by code_simp

subsection \<open>Masking cells without coverage\<close>

lemma mask_row_Inr:
  "mask_row coverage mc ms fs = Inr fs' \<Longrightarrow>
   length fs' = length fs \<and>
   (\<forall>j<length fs.
      (j < length ms \<longrightarrow>
         (\<exists>p. mutation_position (ms ! j) = Inr p \<and> fs' ! j = mask_cell coverage mc p (fs ! j))) \<and>
      (\<not> j < length ms \<longrightarrow> fs' ! j = fs ! j))"
proof (induction coverage mc ms fs arbitrary: fs' rule: mask_row.induct)
  case (1 coverage mc m ms f fs)
  from "1.prems" obtain p fs0 where
    p: "mutation_position m = Inr p" and
    r: "mask_row coverage mc ms fs = Inr fs0" and
    e: "fs' = mask_cell coverage mc p f # fs0"
    by (auto split: sum.splits)
  note ih = "1.IH"[OF p r]
  show ?case
  proof (intro conjI allI impI)
    show "length fs' = length (f # fs)" using e ih by simp
  next
    fix j assume "j < length (f # fs)" "j < length (m # ms)"
    then show "\<exists>p. mutation_position ((m # ms) ! j) = Inr p \<and>
       fs' ! j = mask_cell coverage mc p ((f # fs) ! j)"
      using e p ih by (cases j) auto
  next
    fix j assume "j < length (f # fs)" "\<not> j < length (m # ms)"
    then show "fs' ! j = (f # fs) ! j"
      using e ih by (cases j) auto
  qed
qed auto

lemma mask_rows_Inr:
  "mask_rows files mc muts ref fns arrs = Inr arrs' \<Longrightarrow>
   length arrs' = length arrs \<and>
   (\<forall>i<length arrs.
      (i < length fns \<longrightarrow>
         (find (\<lambda>file. fst file = fns ! i) files = None \<longrightarrow> arrs' ! i = arrs ! i) \<and>
         (\<forall>tsv. find (\<lambda>file. fst file = fns ! i) files = Some tsv \<longrightarrow>
              mask_row (filter (\<lambda>r. chr_col r = ref) (snd tsv)) mc muts (arrs ! i) = Inr (arrs' ! i))) \<and>
      (\<not> i < length fns \<longrightarrow> arrs' ! i = arrs ! i))"
proof (induction files mc muts ref fns arrs arbitrary: arrs' rule: mask_rows.induct)
  case (1 files mc muts ref fn fns a arrs)
  from "1.prems" obtain a' rest where
    a: "(case find (\<lambda>file. fst file = fn) files of
              None \<Rightarrow> Inr a
            | Some tsv_file \<Rightarrow>
                mask_row (filter (\<lambda>r. chr_col r = ref) (snd tsv_file)) mc muts a) = Inr a'" and
    r: "mask_rows files mc muts ref fns arrs = Inr rest" and
    e: "arrs' = a' # rest"
    by (auto split: sum.splits)
  note ih = "1.IH"[OF a r]
  show ?case
  proof (intro conjI allI impI)
    show "length arrs' = length (a # arrs)" using e ih by simp
  next
    fix i assume i: "i < length (a # arrs)" "i < length (fn # fns)"
      "find (\<lambda>file. fst file = (fn # fns) ! i) files = None"
    then show "arrs' ! i = (a # arrs) ! i"
      using a e ih by (cases i) auto
  next
    fix i tsv assume i: "i < length (a # arrs)" "i < length (fn # fns)"
      "find (\<lambda>file. fst file = (fn # fns) ! i) files = Some tsv"
    then show "mask_row (filter (\<lambda>r. chr_col r = ref) (snd tsv)) mc muts ((a # arrs) ! i) = Inr (arrs' ! i)"
      using a e ih by (cases i; cases tsv) auto
  next
    fix i assume "i < length (a # arrs)" "\<not> i < length (fn # fns)"
    then show "arrs' ! i = (a # arrs) ! i"
      using e ih by (cases i) auto
  qed
qed auto

lemma mask_cell_None:
  "mask_cell coverage mc p f = None \<longleftrightarrow>
     f = None \<or> filter (\<lambda>r. pos_col r = p) coverage = [] \<or>
     (f = Some 0 \<and> coverage_col (hd (filter (\<lambda>r. pos_col r = p) coverage)) \<le> mc)"
  by (cases f) (auto simp: mask_cell_def split: list.splits)

lemma mask_cell_unchanged:
  "mask_cell coverage mc p f \<noteq> None \<Longrightarrow> mask_cell coverage mc p f = f"
  by (auto simp: mask_cell_def split: list.splits if_splits)

lemma annotate_cell:
  assumes "annotate_non_covered_regions files mc fa fns muts ref = Inr result"
    and "i < length fa" and "j < length (fa ! i)"
  shows "length result = length fa \<and> length (result ! i) = length (fa ! i) \<and>
     (if files \<noteq> [] \<and> i < length fns \<and> j < length muts \<and>
         find (\<lambda>file. fst file = fns ! i) files \<noteq> None
      then \<exists>tsv p. find (\<lambda>file. fst file = fns ! i) files = Some tsv \<and>
             mutation_position (muts ! j) = Inr p \<and>
             result ! i ! j =
               mask_cell (filter (\<lambda>r. chr_col r = ref) (snd tsv)) mc p (fa ! i ! j)
      else result ! i ! j = fa ! i ! j)"
proof (cases "files = []")
  case True
  then show ?thesis using assms by (simp add: annotate_non_covered_regions_def)
next
  case False
  then have r: "mask_rows files mc muts ref fns fa = Inr result"
    using assms(1) by (simp add: annotate_non_covered_regions_def)
  note R = mask_rows_Inr[OF r]
  show ?thesis
  proof (cases "i < length fns")
    case f: False
    then show ?thesis using R assms(2) by simp
  next
    case t: True
    show ?thesis
    proof (cases "find (\<lambda>file. fst file = fns ! i) files")
      case None
      then show ?thesis using R assms(2) t by simp
    next
      case (Some tsv)
      then have m: "mask_row (filter (\<lambda>r. chr_col r = ref) (snd tsv)) mc muts (fa ! i) = Inr (result ! i)"
        using R assms(2) t by blast
      note M = mask_row_Inr[OF m]
      show ?thesis
        using M assms(3) Some R False t by auto
    qed
  qed
qed

text \<open>
  C1 (as amended): when \<^verbatim>\<open>annotate_non_covered_regions\<close> returns, a cell is masked
  if and only if it was \<^verbatim>\<open>nan\<close> before, or coverage files were found, the sample
  has one, and the reference's rows of that file either have no entry for the
  mutation's position (whatever the cell holds) or the cell is 0 and the first
  entry's depth is at most \<^verbatim>\<open>min_coverage\<close>. A cell that is not masked is unchanged;
  so a cell with frequency above 0 keeps its value whenever the table has an entry
  for its position or the sample has no coverage file.
\<close>

theorem annotate_non_covered_regions_masks:
  assumes "annotate_non_covered_regions files min_coverage frequency_array file_names
             unique_mutations reference = Inr result"
    and "i < length frequency_array" and "j < length (frequency_array ! i)"
  shows "(result ! i ! j = None \<longleftrightarrow>
            frequency_array ! i ! j = None \<or>
            (files \<noteq> [] \<and> i < length file_names \<and> j < length unique_mutations \<and>
             (\<exists>tsv mut_pos.
                 find (\<lambda>file. fst file = file_names ! i) files = Some tsv \<and>
                 mutation_position (unique_mutations ! j) = Inr mut_pos \<and>
                 (filter (\<lambda>r. pos_col r = mut_pos)
                    (filter (\<lambda>r. chr_col r = reference) (snd tsv)) = [] \<or>
                  (frequency_array ! i ! j = Some 0 \<and>
                   coverage_col (hd (filter (\<lambda>r. pos_col r = mut_pos)
                     (filter (\<lambda>r. chr_col r = reference) (snd tsv)))) \<le> min_coverage))))) \<and>
         (result ! i ! j \<noteq> None \<longrightarrow> result ! i ! j = frequency_array ! i ! j)"
proof -
  note A = annotate_cell[OF assms]
  show ?thesis
  proof (cases "files \<noteq> [] \<and> i < length file_names \<and> j < length unique_mutations \<and>
         find (\<lambda>file. fst file = file_names ! i) files \<noteq> None")
    case True
    then obtain tsv p where
      t: "find (\<lambda>file. fst file = file_names ! i) files = Some tsv" and
      p: "mutation_position (unique_mutations ! j) = Inr p" and
      r: "result ! i ! j =
            mask_cell (filter (\<lambda>r. chr_col r = reference) (snd tsv)) min_coverage p
              (frequency_array ! i ! j)"
      using A by auto
    show ?thesis
      using True t p mask_cell_unchanged[of "filter (\<lambda>r. chr_col r = reference) (snd tsv)" min_coverage p "frequency_array ! i ! j"]
      unfolding r mask_cell_None by auto
  next
    case False
    then have "result ! i ! j = frequency_array ! i ! j" using A by presburger
    then show ?thesis using False by auto
  qed
qed

theorem annotate_non_covered_regions_masks_witness:
  "annotate_non_covered_regions
     [(''s1'', [\<lparr>chr_col = ''ref'', pos_col = 5, coverage_col = 100\<rparr>,
                \<lparr>chr_col = ''ref'', pos_col = 7, coverage_col = 3\<rparr>,
                \<lparr>chr_col = ''ref'', pos_col = 8, coverage_col = 30\<rparr>])]
     10 [[Some (1 / 2), Some 0, Some 0, Some 0]] [''s1'']
     [''5_A_T_SNV'', ''7_C_G_SNV'', ''8_G_GA_INS'', ''9_GA_G_DEL''] ''ref'' =
     Inr [[Some (1 / 2), None, Some 0, None]] \<and>
   (\<exists>tsv mut_pos.
       find (\<lambda>file. fst file = ''s1'')
         [(''s1'', [\<lparr>chr_col = ''ref'', pos_col = 5, coverage_col = 100\<rparr>,
                \<lparr>chr_col = ''ref'', pos_col = 7, coverage_col = 3\<rparr>,
                \<lparr>chr_col = ''ref'', pos_col = 8, coverage_col = 30\<rparr>])] = Some tsv \<and>
       mutation_position ''7_C_G_SNV'' = Inr mut_pos \<and>
       (filter (\<lambda>r. pos_col r = mut_pos) (filter (\<lambda>r. chr_col r = ''ref'') (snd tsv)) = [] \<or>
        coverage_col (hd (filter (\<lambda>r. pos_col r = mut_pos)
          (filter (\<lambda>r. chr_col r = ''ref'') (snd tsv)))) \<le> 10))"
proof -
  have h: "annotate_non_covered_regions
     [(''s1'', [\<lparr>chr_col = ''ref'', pos_col = 5, coverage_col = 100\<rparr>,
                \<lparr>chr_col = ''ref'', pos_col = 7, coverage_col = 3\<rparr>,
                \<lparr>chr_col = ''ref'', pos_col = 8, coverage_col = 30\<rparr>])]
     10 [[Some (1 / 2), Some 0, Some 0, Some 0]] [''s1'']
     [''5_A_T_SNV'', ''7_C_G_SNV'', ''8_G_GA_INS'', ''9_GA_G_DEL''] ''ref'' =
     Inr [[Some (1 / 2), None, Some 0, None]]"
    by code_simp
  have "(0::nat) < length [[Some (1 / 2 :: rat), Some 0, Some 0, Some 0]]"
    "(1::nat) < length ([[Some (1 / 2 :: rat), Some 0, Some 0, Some 0]] ! 0)"
    by simp_all
  from annotate_non_covered_regions_masks[OF h this]
  show ?thesis using h by simp
qed

text \<open>
  The claim as stated fails: a cell with frequency 1/2 at a position the coverage
  table does not list is masked.
\<close>

theorem annotate_masks_observed_variant_counterexample:
  "annotate_non_covered_regions
     [(''s1'', [\<lparr>chr_col = ''ref'', pos_col = 5, coverage_col = 100\<rparr>])]
     10 [[Some (1 / 2)]] [''s1''] [''7_A_T_SNV''] ''ref'' = Inr [[None]]"
  by code_simp

subsection \<open>Gene tracks\<close>

lemma ebind_Inr_iff:
  "ebind m f = Inr y \<longleftrightarrow> (\<exists>x. m = Inr x \<and> f x = Inr y)"
  by (cases m) (auto simp: ebind_def)

lemma ebind_Inr [simp]: "ebind (Inr x) f = f x"
  by (simp add: ebind_def)

lemma ebind_Inl [simp]: "ebind (Inl e) f = Inl e"
  by (simp add: ebind_def)

lemma first_fit_spec_least:
  "first_fit_spec ts s \<le> length ts \<and>
   (\<forall>i<first_fit_spec ts s. \<not> ts ! i \<le> s) \<and>
   (first_fit_spec ts s < length ts \<longrightarrow> ts ! first_fit_spec ts s \<le> s)"
proof (intro conjI allI impI)
  show "first_fit_spec ts s \<le> length ts"
    by (simp add: first_fit_spec_def length_takeWhile_le)
next
  fix i assume i: "i < first_fit_spec ts s"
  then have "takeWhile (\<lambda>last_stop. \<not> last_stop \<le> s) ts ! i = ts ! i"
    unfolding first_fit_spec_def by (rule takeWhile_nth)
  moreover have "takeWhile (\<lambda>last_stop. \<not> last_stop \<le> s) ts ! i
      \<in> set (takeWhile (\<lambda>last_stop. \<not> last_stop \<le> s) ts)"
    using i unfolding first_fit_spec_def by (rule nth_mem)
  ultimately show "\<not> ts ! i \<le> s"
    by (metis set_takeWhileD)
next
  assume "first_fit_spec ts s < length ts"
  then show "ts ! first_fit_spec ts s \<le> s"
    unfolding first_fit_spec_def using nth_length_takeWhile by blast
qed

lemma first_fit_spec_drop:
  "k < length ts \<Longrightarrow> first_fit_spec (drop k ts) s =
     (if s < ts ! k then Suc (first_fit_spec (drop (Suc k) ts) s) else 0)"
  by (simp add: first_fit_spec_def Cons_nth_drop_Suc[symmetric] not_le)

lemma find_track_spec:
  "k < length ts \<Longrightarrow>
   find_track s ts k =
     Inr (if k + first_fit_spec (drop k ts) s < length ts then ts else ts @ [0],
          k + first_fit_spec (drop k ts) s)"
proof (induction s ts k rule: find_track.induct)
  case (1 start track_stops track)
  note k = "1.prems"
  show ?case
  proof (cases "start < track_stops ! track")
    case False
    then show ?thesis
      using k by (subst find_track.simps) (simp add: first_fit_spec_drop)
  next
    case lt: True
    show ?thesis
    proof (cases "length track_stops \<le> track + 1")
      case True
      then have "drop (Suc track) track_stops = []" by simp
      then have "first_fit_spec (drop (Suc track) track_stops) start = 0"
        by (simp add: first_fit_spec_def)
      then have "first_fit_spec (drop track track_stops) start = 1"
        using k lt by (simp add: first_fit_spec_drop)
      then show ?thesis
        using k lt True
        by (subst find_track.simps) simp
    next
      case False
      then have "find_track start track_stops (track + 1) =
         Inr (if track + 1 + first_fit_spec (drop (track + 1) track_stops) start < length track_stops
              then track_stops else track_stops @ [0],
              track + 1 + first_fit_spec (drop (track + 1) track_stops) start)"
        using "1.IH" k lt by simp
      then show ?thesis
        using k lt False
        by (subst find_track.simps) (simp add: first_fit_spec_drop)
    qed
  qed
qed

lemma find_track_0:
  "ts \<noteq> [] \<Longrightarrow>
   find_track s ts 0 =
     Inr (if first_fit_spec ts s < length ts then ts else ts @ [0], first_fit_spec ts s)"
  using find_track_spec[of 0 ts s] by simp

lemma assign_tracks_greedy:
  "ts \<noteq> [] \<Longrightarrow> assign_tracks genes ts = Inr (greedy_tracks_spec genes ts)"
proof (induction genes arbitrary: ts)
  case Nil
  then show ?case by simp
next
  case (Cons g genes)
  obtain gene start stop strand where g: "g = (gene, start, stop, strand)"
    by (cases g) auto
  let ?t = "first_fit_spec ts start"
  let ?o = "if ?t < length ts then ts else ts @ [0]"
  have le: "?t \<le> length ts" using first_fit_spec_least by blast
  have lt: "?t < length ?o" using le by auto
  have ne: "?o[?t := stop] \<noteq> []" using Cons.prems by auto
  have ih: "assign_tracks genes (?o[?t := stop]) = Inr (greedy_tracks_spec genes (?o[?t := stop]))"
    using ne by (rule Cons.IH)
  show ?case
    unfolding g
    apply (simp only: assign_tracks.simps greedy_tracks_spec.simps fst_conv snd_conv
        find_track_0[OF Cons.prems] ebind_Inr case_prod_conv Let_def)
    using lt ih by (simp add: split_beta)
qed

lemma greedy_tracks_spec_genes:
  "map (\<lambda>(gene, location, track). (gene, location)) (fst (greedy_tracks_spec genes ts)) = genes"
  by (induction genes ts rule: greedy_tracks_spec.induct) (auto simp: Let_def split_beta)

lemma fold_update_keys:
  "distinct (map fst acc) \<Longrightarrow>
   distinct (map fst (fold (\<lambda>element d. AList.update (fst element) (snd element) d) elems acc)) \<and>
   fst ` set (fold (\<lambda>element d. AList.update (fst element) (snd element) d) elems acc) =
     fst ` set elems \<union> fst ` set acc \<and>
   set (fold (\<lambda>element d. AList.update (fst element) (snd element) d) elems acc) \<subseteq>
     set elems \<union> set acc"
proof (induction elems arbitrary: acc)
  case Nil
  then show ?case by simp
next
  case (Cons e elems)
  have d: "distinct (map fst (AList.update (fst e) (snd e) acc))"
    using Cons.prems by (simp add: distinct_update)
  have s: "set (AList.update (fst e) (snd e) acc) \<subseteq> insert e (set acc)"
    by (induction acc) auto
  show ?case
    using Cons.IH[OF d] s by (auto simp: dom_update)
qed

lemma sorted_starts:
  fixes xs :: "('a \<times> (int \<times> 'b :: linorder)) list"
  shows "sorted (map snd xs) \<Longrightarrow> sorted (map (\<lambda>x. fst (snd x)) xs)"
  by (induction xs) (auto simp: less_eq_prod_def)

lemma create_track_dict_Inr:
  assumes "create_track_dict set_order unique_mutations gff3_info annotation_type =
             Inr (gene_dict, n_tracks)"
    and "gene_dict \<noteq> []"
  obtains added where
    "genes_of_mutations unique_mutations gff3_info annotation_type = Inr added"
    "added \<noteq> []"
    "track_dict_of (set_order added) = Inr (gene_dict, n_tracks)"
  using assms by (auto simp: create_track_dict_def ebind_Inr_iff split: if_splits)

lemma track_dict_of_Inr:
  assumes "track_dict_of elems = Inr (gene_dict, n_tracks)"
  shows "\<exists>last_stops.
     greedy_tracks_spec
       (sort_key snd (fold (\<lambda>element d. AList.update (fst element) (snd element) d) elems []))
       [0] = (gene_dict, last_stops) \<and> n_tracks = length last_stops"
  using assms
  by (auto simp: track_dict_of_def Let_def assign_tracks_greedy split: if_splits prod.splits)

lemma three_elems:
  assumes "distinct elems" "set elems = {x, y, z}" "x \<noteq> y" "x \<noteq> z" "y \<noteq> z"
  shows "elems \<in> {[x, y, z], [x, z, y], [y, x, z], [y, z, x], [z, x, y], [z, y, x]}"
proof -
  have "length elems = 3"
    using assms distinct_card[of elems] by simp
  then obtain p q r where e: "elems = [p, q, r]"
    by (auto simp: numeral_3_eq_3 length_Suc_conv)
  have "p \<in> {x, y, z}" "q \<in> {x, y, z}" "r \<in> {x, y, z}"
    using assms(2) e by auto
  moreover have "p \<noteq> q" "p \<noteq> r" "q \<noteq> r" using assms(1) e by auto
  moreover have "x \<in> {p, q, r}" "y \<in> {p, q, r}" "z \<in> {p, q, r}"
    using assms(2) e by auto
  ultimately show ?thesis unfolding e by auto
qed

lemma same_type_refl [simp]: "same_type x x"
  by (cases x) auto

lemma comparable_iff:
  "comparable gene_dict \<longleftrightarrow>
     (\<forall>(g, start, stop, strand)\<in>set gene_dict. \<forall>(g', start', stop', strand')\<in>set gene_dict.
        start = start' \<and> stop = stop' \<longrightarrow> same_type strand strand')"
  by (simp add: comparable_def list_all_iff)

lemma fold_update_distinct:
  "distinct (map fst elems) \<Longrightarrow> distinct (map fst acc) \<Longrightarrow> fst ` set elems \<inter> fst ` set acc = {} \<Longrightarrow>
   fold (\<lambda>element d. AList.update (fst element) (snd element) d) elems acc = acc @ elems"
proof (induction elems arbitrary: acc)
  case Nil
  then show ?case by simp
next
  case (Cons e elems)
  have u: "AList.update (fst e) (snd e) acc = acc @ [e]"
    using Cons.prems(3) by (induction acc) auto
  have "fold (\<lambda>element d. AList.update (fst element) (snd element) d) elems (acc @ [e]) = (acc @ [e]) @ elems"
    using Cons.prems by (intro Cons.IH) auto
  then show ?case using u by simp
qed

lemma assign_example:
  "assign_tracks [(a, 10, 50, sa), (b, 20, 40, sb), (c, 60, 80, sc)] [0] =
     Inr ([(a, (10, 50, sa), 0), (b, (20, 40, sb), 1), (c, (60, 80, sc), 0)], [80, 40])"
  by (simp add: assign_tracks_greedy first_fit_spec_def)

lemma track_example:
  assumes "distinct elems"
    and "set elems = {(a, 10, 50, sa), (b, 20, 40, sb), (c, 60, 80, sc)}"
    and "distinct [a, b, c]"
  shows "track_dict_of elems =
     Inr ([(a, (10, 50, sa), 0), (b, (20, 40, sb), 1), (c, (60, 80, sc), 0)], 2)"
proof -
  let ?ga = "(a, 10::int, 50::int, sa)" and ?gb = "(b, 20::int, 40::int, sb)"
    and ?gc = "(c, 60::int, 80::int, sc)"
  have ne: "a \<noteq> b" "a \<noteq> c" "b \<noteq> c" using assms(3) by auto
  have perm: "elems \<in> {[?ga, ?gb, ?gc], [?ga, ?gc, ?gb], [?gb, ?ga, ?gc], [?gb, ?gc, ?ga],
      [?gc, ?ga, ?gb], [?gc, ?gb, ?ga]}"
    using assms(1,2) by (rule three_elems) simp_all
  have names: "distinct (map fst elems)"
    using perm ne by auto
  have gd: "fold (\<lambda>element d. AList.update (fst element) (snd element) d) elems [] = elems"
    using fold_update_distinct[OF names, of "[]"] by simp
  have cmp: "comparable elems"
    unfolding comparable_iff assms(2) by simp
  have srt: "sort_key snd elems = [?ga, ?gb, ?gc]"
    using perm by (auto simp: less_eq_prod_def)
  show ?thesis
    by (simp add: track_dict_of_def gd cmp srt assign_example Let_def)
qed

text \<open>
  C5: when \<^verbatim>\<open>create_track_dict\<close> returns genes, they stand in ascending start order
  in the dictionary, which is the order they were processed in, and the tracks are
  those of the greedy assignment of the specification: each gene gets the first
  track whose last occupied stop is at most its start, and a new track when there is
  none; the count returned is the number of tracks opened. For three genes with
  different names and the intervals [10,50], [20,40], [60,80], in whatever order the
  set iterates, the tracks are 0, 1 and 0, and the count is 2.
\<close>

theorem create_track_dict_first_fit:
  "(create_track_dict set_order unique_mutations gff3_info annotation_type =
      Inr (gene_dict, n_tracks) \<and> gene_dict \<noteq> [] \<longrightarrow>
      sorted (map (\<lambda>(gene, location, track). fst location) gene_dict) \<and>
      (\<exists>last_stops.
         greedy_tracks_spec (map (\<lambda>(gene, location, track). (gene, location)) gene_dict) [0] =
           (gene_dict, last_stops) \<and>
         n_tracks = length last_stops)) \<and>
   (first_fit_spec last_stops start \<le> length last_stops \<and>
    (\<forall>i<first_fit_spec last_stops start. \<not> last_stops ! i \<le> start) \<and>
    (first_fit_spec last_stops start < length last_stops \<longrightarrow>
       last_stops ! first_fit_spec last_stops start \<le> start)) \<and>
   (distinct elems \<and> set elems = {(a, 10, 50, sa), (b, 20, 40, sb), (c, 60, 80, sc)} \<and>
    distinct [a, b, c] \<longrightarrow>
      track_dict_of elems =
        Inr ([(a, (10, 50, sa), 0), (b, (20, 40, sb), 1), (c, (60, 80, sc), 0)], 2))"
proof (intro conjI impI)
  assume h: "create_track_dict set_order unique_mutations gff3_info annotation_type =
      Inr (gene_dict, n_tracks) \<and> gene_dict \<noteq> []"
  then obtain added where
    t: "track_dict_of (set_order added) = Inr (gene_dict, n_tracks)"
    by (blast elim: create_track_dict_Inr)
  let ?items = "sort_key snd
     (fold (\<lambda>element d. AList.update (fst element) (snd element) d) (set_order added) [])"
  from track_dict_of_Inr[OF t] obtain stops where
    g: "greedy_tracks_spec ?items [0] = (gene_dict, stops)" and n: "n_tracks = length stops"
    by blast
  have items: "map (\<lambda>(gene, location, track). (gene, location)) gene_dict = ?items"
    using greedy_tracks_spec_genes[of ?items "[0]"] g by simp
  have "sorted (map snd ?items)" by (rule sorted_sort_key)
  then have "sorted (map (\<lambda>x. fst (snd x)) ?items)" by (rule sorted_starts)
  then have "sorted (map (\<lambda>x. fst (snd x)) (map (\<lambda>(gene, location, track). (gene, location)) gene_dict))"
    using items by simp
  then show "sorted (map (\<lambda>(gene, location, track). fst location) gene_dict)"
    by (simp add: comp_def case_prod_unfold)
  show "\<exists>last_stops.
         greedy_tracks_spec (map (\<lambda>(gene, location, track). (gene, location)) gene_dict) [0] =
           (gene_dict, last_stops) \<and>
         n_tracks = length last_stops"
    using g n items by auto
next
  show "first_fit_spec last_stops start \<le> length last_stops"
    using first_fit_spec_least by blast
  show "\<forall>i<first_fit_spec last_stops start. \<not> last_stops ! i \<le> start"
    using first_fit_spec_least by blast
next
  assume "first_fit_spec last_stops start < length last_stops"
  then show "last_stops ! first_fit_spec last_stops start \<le> start"
    using first_fit_spec_least by blast
next
  assume "distinct elems \<and> set elems = {(a, 10, 50, sa), (b, 20, 40, sb), (c, 60, 80, sc)} \<and>
    distinct [a, b, c]"
  then show "track_dict_of elems =
        Inr ([(a, (10, 50, sa), 0), (b, (20, 40, sb), 1), (c, (60, 80, sc), 0)], 2)"
    using track_example by blast
qed

theorem create_track_dict_first_fit_witness:
  "create_track_dict remdups [''70_A_T_SNV'', ''25_C_G_SNV'', ''30_G_GA_INS'']
     [(''gene'',
       [(''g1'', [(''Name'', GStr ''A''), (''start'', GInt 10), (''stop'', GInt 50),
                  (''strand'', GStr ''+'')]),
        (''g2'', [(''start'', GInt 20), (''stop'', GInt 40), (''strand'', GStr ''-'')]),
        (''g3'', [(''Name'', GStr ''C''), (''start'', GInt 60), (''stop'', GInt 80),
                  (''strand'', GStr ''+'')])])]
     [''gene''] =
     Inr ([(GStr ''A'', (10, 50, GStr ''+''), 0), (GStr ''g2'', (20, 40, GStr ''-''), 1),
           (GStr ''C'', (60, 80, GStr ''+''), 0)], 2) \<and>
   sorted (map (\<lambda>(gene, location, track). fst location)
     [(GStr ''A'', (10, 50, GStr ''+''), 0 :: nat), (GStr ''g2'', (20, 40, GStr ''-''), 1),
      (GStr ''C'', (60 :: int, 80 :: int, GStr ''+''), 0)]) \<and>
   first_fit_spec [50, 40] 60 = 0 \<and> first_fit_spec [50] 20 = 1 \<and>
   track_dict_of [(GStr ''C'', 60, 80, GStr ''+''), (GStr ''A'', 10, 50, GStr ''+''),
                  (GStr ''g2'', 20, 40, GStr ''-'')] =
     Inr ([(GStr ''A'', (10, 50, GStr ''+''), 0), (GStr ''g2'', (20, 40, GStr ''-''), 1),
           (GStr ''C'', (60, 80, GStr ''+''), 0)], 2)"
proof -
  let ?D = "[(GStr ''A'', (10 :: int, 50 :: int, GStr ''+''), 0 :: nat),
             (GStr ''g2'', (20, 40, GStr ''-''), 1), (GStr ''C'', (60, 80, GStr ''+''), 0)]"
  let ?E = "[(GStr ''C'', 60 :: int, 80 :: int, GStr ''+''), (GStr ''A'', 10, 50, GStr ''+''),
             (GStr ''g2'', 20, 40, GStr ''-'')]"
  have h: "create_track_dict remdups [''70_A_T_SNV'', ''25_C_G_SNV'', ''30_G_GA_INS'']
     [(''gene'',
       [(''g1'', [(''Name'', GStr ''A''), (''start'', GInt 10), (''stop'', GInt 50),
                  (''strand'', GStr ''+'')]),
        (''g2'', [(''start'', GInt 20), (''stop'', GInt 40), (''strand'', GStr ''-'')]),
        (''g3'', [(''Name'', GStr ''C''), (''start'', GInt 60), (''stop'', GInt 80),
                  (''strand'', GStr ''+'')])])]
     [''gene''] = Inr (?D, 2)"
    by code_simp
  have d: "?D \<noteq> []" by simp
  have e: "distinct ?E \<and>
     set ?E = {(GStr ''A'', 10, 50, GStr ''+''), (GStr ''g2'', 20, 40, GStr ''-''),
               (GStr ''C'', 60, 80, GStr ''+'')} \<and>
     distinct [GStr ''A'', GStr ''g2'', GStr ''C'']"
    by auto
  have f: "first_fit_spec [50, 40] 60 = 0" "first_fit_spec [50] 20 = 1"
    by (simp_all add: first_fit_spec_def)
  note T = create_track_dict_first_fit[where set_order = remdups and gene_dict = ?D
      and n_tracks = 2 and elems = ?E and a = "GStr ''A''" and b = "GStr ''g2''"
      and c = "GStr ''C''" and sa = "GStr ''+''" and sb = "GStr ''-''" and sc = "GStr ''+''"]
  have s: "sorted (map (\<lambda>(gene, location, track). fst location) ?D)"
    using T h d by blast
  have t: "track_dict_of ?E = Inr (?D, 2)"
    using T e by blast
  show ?thesis using h s t f by blast
qed

text \<open>
  C10 (as amended): the genes found are collected as a set of tuples
  \<^verbatim>\<open>(name, start, stop, strand)\<close>, but the layout returned is a dictionary keyed by
  the name alone. It holds one entry for each name found, and the entry's location
  is that of one of the features found with this name; features that share a name
  do not get entries of their own.
\<close>

theorem create_track_dict_keyed_by_name:
  "create_track_dict set_order unique_mutations gff3_info annotation_type =
     Inr (gene_dict, n_tracks) \<and>
   genes_of_mutations unique_mutations gff3_info annotation_type = Inr added \<and>
   iterates set_order added \<longrightarrow>
     distinct (map fst gene_dict) \<and>
     fst ` set gene_dict = fst ` set added \<and>
     (\<forall>(name, location, track)\<in>set gene_dict. (name, location) \<in> set added)"
proof (intro impI)
  assume h: "create_track_dict set_order unique_mutations gff3_info annotation_type =
     Inr (gene_dict, n_tracks) \<and>
   genes_of_mutations unique_mutations gff3_info annotation_type = Inr added \<and>
   iterates set_order added"
  show "distinct (map fst gene_dict) \<and>
     fst ` set gene_dict = fst ` set added \<and>
     (\<forall>(name, location, track)\<in>set gene_dict. (name, location) \<in> set added)"
  proof (cases "added = []")
    case True
    then show ?thesis using h by (auto simp: create_track_dict_def)
  next
    case False
    let ?elems = "set_order added"
    let ?gd = "fold (\<lambda>element d. AList.update (fst element) (snd element) d) ?elems []"
    have t: "track_dict_of ?elems = Inr (gene_dict, n_tracks)"
      using h False by (auto simp: create_track_dict_def)
    from track_dict_of_Inr[OF t] obtain stops where
      g: "greedy_tracks_spec (sort_key snd ?gd) [0] = (gene_dict, stops)"
      by blast
    have items: "map (\<lambda>(gene, location, track). (gene, location)) gene_dict = sort_key snd ?gd"
      using greedy_tracks_spec_genes[of "sort_key snd ?gd" "[0]"] g by simp
    have k: "distinct (map fst ?gd)" "fst ` set ?gd = fst ` set ?elems" "set ?gd \<subseteq> set ?elems"
      using fold_update_keys[of "[]" ?elems] by auto
    have se: "set ?elems = set added" using h by (simp add: iterates_def)
    have m: "map fst gene_dict = map fst (sort_key snd ?gd)"
      using arg_cong[OF items, of "map fst"] by (simp add: comp_def case_prod_unfold)
    have "distinct (map fst (sort_key snd ?gd))"
      using k(1) by (simp add: distinct_map)
    then have 1: "distinct (map fst gene_dict)" using m by simp
    have "set (map fst gene_dict) = fst ` set ?gd"
      using m by simp
    then have 2: "fst ` set gene_dict = fst ` set added" using k(2) se by simp
    have 3: "(name, location) \<in> set added" if "(name, location, track) \<in> set gene_dict"
      for name location track
    proof -
      have "(\<lambda>(gene, location, track). (gene, location)) (name, location, track)
          \<in> (\<lambda>(gene, location, track). (gene, location)) ` set gene_dict"
        using that by (rule imageI)
      then have "(name, location) \<in> set (map (\<lambda>(gene, location, track). (gene, location)) gene_dict)"
        by simp
      then have "(name, location) \<in> set ?gd" using items by simp
      then show ?thesis using k(3) se by auto
    qed
    have "\<forall>(name, location, track)\<in>set gene_dict. (name, location) \<in> set added"
      using 3 by blast
    then show ?thesis using 1 2 by blast
  qed
qed

theorem create_track_dict_keyed_by_name_witness:
  "create_track_dict remdups [''20_A_T_SNV'', ''70_C_G_SNV'']
     [(''gene'',
       [(''g1'', [(''Name'', GStr ''A''), (''start'', GInt 10), (''stop'', GInt 50),
                  (''strand'', GStr ''+'')]),
        (''g2'', [(''Name'', GStr ''B''), (''start'', GInt 60), (''stop'', GInt 80),
                  (''strand'', GStr ''+'')])])]
     [''gene''] =
     Inr ([(GStr ''A'', (10, 50, GStr ''+''), 0), (GStr ''B'', (60, 80, GStr ''+''), 0)], 1) \<and>
   distinct (map fst [(GStr ''A'', (10 :: int, 50 :: int, GStr ''+''), 0 :: nat),
                      (GStr ''B'', (60, 80, GStr ''+''), 0)]) \<and>
   fst ` set [(GStr ''A'', (10 :: int, 50 :: int, GStr ''+''), 0 :: nat),
              (GStr ''B'', (60, 80, GStr ''+''), 0)] =
   fst ` set [(GStr ''A'', 10 :: int, 50 :: int, GStr ''+''), (GStr ''B'', 60, 80, GStr ''+'')]"
proof -
  let ?G = "[(''gene'',
       [(''g1'', [(''Name'', GStr ''A''), (''start'', GInt 10), (''stop'', GInt 50),
                  (''strand'', GStr ''+'')]),
        (''g2'', [(''Name'', GStr ''B''), (''start'', GInt 60), (''stop'', GInt 80),
                  (''strand'', GStr ''+'')])])]"
  let ?D = "[(GStr ''A'', (10 :: int, 50 :: int, GStr ''+''), 0 :: nat),
             (GStr ''B'', (60, 80, GStr ''+''), 0)]"
  let ?A = "[(GStr ''A'', 10 :: int, 50 :: int, GStr ''+''), (GStr ''B'', 60, 80, GStr ''+'')]"
  have h: "create_track_dict remdups [''20_A_T_SNV'', ''70_C_G_SNV''] ?G [''gene''] = Inr (?D, 1)"
    by code_simp
  have a: "genes_of_mutations [''20_A_T_SNV'', ''70_C_G_SNV''] ?G [''gene''] = Inr ?A"
    by code_simp
  have i: "iterates remdups ?A" by (simp add: iterates_def)
  show ?thesis
    using create_track_dict_keyed_by_name[where set_order = remdups and gene_dict = ?D
      and n_tracks = 1 and added = ?A and gff3_info = ?G and annotation_type = "[''gene'']"
      and unique_mutations = "[''20_A_T_SNV'', ''70_C_G_SNV'']"] h a i
    by blast
qed

text \<open>
  The claim as stated fails: two features named A, at [10,50) and at [60,80), both
  hold a mutation and are two tuples of the set; in either order of the set the
  layout has one entry.
\<close>

theorem create_track_dict_same_name_counterexample:
  "genes_of_mutations [''20_A_T_SNV'', ''70_C_G_SNV'']
     [(''gene'',
       [(''g1'', [(''Name'', GStr ''A''), (''start'', GInt 10), (''stop'', GInt 50),
                  (''strand'', GStr ''+'')]),
        (''g2'', [(''Name'', GStr ''A''), (''start'', GInt 60), (''stop'', GInt 80),
                  (''strand'', GStr ''+'')])])]
     [''gene''] =
     Inr [(GStr ''A'', 10, 50, GStr ''+''), (GStr ''A'', 60, 80, GStr ''+'')] \<and>
   track_dict_of [(GStr ''A'', 10, 50, GStr ''+''), (GStr ''A'', 60, 80, GStr ''+'')] =
     Inr ([(GStr ''A'', (60, 80, GStr ''+''), 0)], 1) \<and>
   track_dict_of [(GStr ''A'', 60, 80, GStr ''+''), (GStr ''A'', 10, 50, GStr ''+'')] =
     Inr ([(GStr ''A'', (10, 50, GStr ''+''), 0)], 1)"
  by code_simp

subsection \<open>Parsing a GFF3 file\<close>

lemma ebind_cases:
  "ebind m f = r \<Longrightarrow> (\<exists>e. m = Inl e \<and> r = Inl e) \<or> (\<exists>x. m = Inr x \<and> f x = r)"
  by (cases m) auto

lemma lookup_error: "lookup d k = Inl e \<Longrightarrow> e = KeyError"
  by (auto simp: lookup_def split: option.splits)

lemma py_int_error: "py_int s = Inl e \<Longrightarrow> e = ValueError"
  by (auto simp: py_int_def Let_def split: if_splits)

lemma set_attribute_result:
  "set_attribute d type aid key v = r \<Longrightarrow>
     r \<noteq> Inl ReferenceNotFound \<and> (\<forall>d'. r = Inr d' \<longrightarrow> d' \<noteq> [])"
  by (auto simp: set_attribute_def ebind_def lookup_def split: sum.splits option.splits)

lemma parse_attribute_result:
  "parse_attribute type (d, aid) attribute = r \<Longrightarrow>
     r \<noteq> Inl ReferenceNotFound \<and> (\<forall>d' aid'. r = Inr (d', aid') \<longrightarrow> d \<noteq> [] \<longrightarrow> d' \<noteq> [])"
  using set_attribute_result[of d type aid _ _]
  by (auto simp: parse_attribute_def ebind_def lookup_def
      split: sum.splits option.splits list.splits if_splits)

lemma parse_attributes_result:
  "parse_attributes type (d, aid) attributes = r \<Longrightarrow>
     r \<noteq> Inl ReferenceNotFound \<and> (\<forall>d' aid'. r = Inr (d', aid') \<longrightarrow> d \<noteq> [] \<longrightarrow> d' \<noteq> [])"
proof (induction attributes arbitrary: d aid)
  case Nil
  then show ?case by auto
next
  case (Cons a attributes)
  from Cons.prems have
    "ebind (parse_attribute type (d, aid) a) (\<lambda>state'. parse_attributes type state' attributes) = r"
    by simp
  from ebind_cases[OF this] show ?case
  proof
    assume "\<exists>e. parse_attribute type (d, aid) a = Inl e \<and> r = Inl e"
    then show ?thesis using parse_attribute_result[of type d aid a] by auto
  next
    assume "\<exists>x. parse_attribute type (d, aid) a = Inr x \<and> parse_attributes type x attributes = r"
    then obtain d1 a1 where
      1: "parse_attribute type (d, aid) a = Inr (d1, a1)" and
      2: "parse_attributes type (d1, a1) attributes = r"
      by (metis surj_pair)
    show ?thesis
      using parse_attribute_result[OF 1] Cons.IH[OF 2] by auto
  qed
qed

lemma ebind_induct:
  "(\<And>e. m = Inl e \<Longrightarrow> P (Inl e)) \<Longrightarrow> (\<And>x. m = Inr x \<Longrightarrow> P (f x)) \<Longrightarrow> P (ebind m f)"
  by (cases m) auto

lemma parse_line_skipped:
  "skipped reference line \<Longrightarrow> parse_line reference state line = Inr state"
  by (auto simp: skipped_def parse_line_def Let_def split: if_splits)

lemma parse_line_indexed:
  assumes "\<not> skipped reference line"
  shows "parse_line reference (d, aid) line \<noteq> Inl ReferenceNotFound \<and>
         (\<forall>d' aid'. parse_line reference (d, aid) line = Inr (d', aid') \<longrightarrow> d' \<noteq> [])"
proof -
  let ?v = "py_split (CHR 0x09) (strip line)"
  let ?P = "\<lambda>r :: error + gff3_state. r \<noteq> Inl ReferenceNotFound \<and> (\<forall>d' aid'. r = Inr (d', aid') \<longrightarrow> d' \<noteq> [])"
  have s: "startswith line reference" using assms by (auto simp: skipped_def split: if_splits)
  show ?thesis
  proof (cases "length ?v \<le> 8")
    case True
    then show ?thesis using s by (simp add: parse_line_def)
  next
    case False
    then have idp: "startswith (?v ! 8) ''ID=''"
      using assms s by (auto simp: skipped_def Let_def)
    let ?type = "?v ! 2"
    let ?d0 = "if map_of d ?type = None then AList.update ?type [] d else d"
    have eq: "parse_line reference (d, aid) line =
      ebind (parse_attributes ?type (?d0, aid) (py_split (CHR '';'') (?v ! 8))) (\<lambda>(d, attribute_id').
                ebind (py_int (?v ! 3)) (\<lambda>start.
                ebind (set_attribute d ?type attribute_id' ''start'' (GInt start)) (\<lambda>d1.
                ebind (py_int (?v ! 4)) (\<lambda>stop.
                ebind (set_attribute d1 ?type attribute_id' ''stop'' (GInt stop)) (\<lambda>d2.
                ebind (set_attribute d2 ?type attribute_id' ''strand'' (GStr (?v ! 6)))
                  (\<lambda>d3. Inr (d3, attribute_id')))))))"
      using s False idp by (simp add: parse_line_def Let_def)
    have "?P (parse_line reference (d, aid) line)"
      unfolding eq
    proof (rule ebind_induct, goal_cases)
      case (1 e)
      then show ?case using parse_attributes_result[of ?type ?d0 aid] by auto
    next
      case (2 x)
      obtain dd a' where x: "x = (dd, a')" by (cases x) auto
      show ?case unfolding x case_prod_conv
      proof (rule ebind_induct, goal_cases)
        case (1 e)
        then show ?case using py_int_error by auto
      next
        case (2 start)
        show ?case
        proof (rule ebind_induct, goal_cases)
          case (1 e)
          then show ?case using set_attribute_result by blast
        next
          case (2 d1)
          show ?case
          proof (rule ebind_induct, goal_cases)
            case (1 e)
            then show ?case using py_int_error by auto
          next
            case (2 stop)
            show ?case
            proof (rule ebind_induct, goal_cases)
              case (1 e)
              then show ?case using set_attribute_result by blast
            next
              case (2 d2)
              show ?case
              proof (rule ebind_induct, goal_cases)
                case (1 e)
                then show ?case using set_attribute_result by blast
              next
                case (2 d3)
                then show ?case using set_attribute_result by blast
              qed
            qed
          qed
        qed
      qed
    qed
    then show ?thesis by blast
  qed
qed

lemma parse_line_keeps:
  "parse_line reference (d, aid) line \<noteq> Inl ReferenceNotFound \<and>
   (\<forall>d' aid'. parse_line reference (d, aid) line = Inr (d', aid') \<longrightarrow> d \<noteq> [] \<longrightarrow> d' \<noteq> [])"
proof (cases "skipped reference line")
  case True
  then show ?thesis by (simp add: parse_line_skipped)
next
  case False
  then show ?thesis using parse_line_indexed by blast
qed

lemma parse_lines_keeps:
  "parse_lines reference (d, aid) lines \<noteq> Inl ReferenceNotFound \<and>
   (\<forall>d' aid'. parse_lines reference (d, aid) lines = Inr (d', aid') \<longrightarrow> d \<noteq> [] \<longrightarrow> d' \<noteq> [])"
proof (induction lines arbitrary: d aid)
  case Nil
  then show ?case by simp
next
  case (Cons line lines)
  show ?case
  proof (cases "parse_line reference (d, aid) line")
    case (Inl e)
    then show ?thesis using parse_line_keeps[of reference d aid line] by simp
  next
    case (Inr st)
    obtain d1 a1 where st: "st = (d1, a1)" by (cases st) auto
    show ?thesis
      using Inr st parse_line_keeps[of reference d aid line] Cons.IH[of d1 a1] by simp
  qed
qed

lemma parse_lines_skipped:
  "\<forall>line\<in>set lines. skipped reference line \<Longrightarrow> parse_lines reference state lines = Inr state"
  by (induction lines) (simp_all add: parse_line_skipped)

lemma parse_lines_indexed:
  "\<exists>line\<in>set lines. \<not> skipped reference line \<Longrightarrow>
   parse_lines reference (d, aid) lines \<noteq> Inl ReferenceNotFound \<and>
   (\<forall>d' aid'. parse_lines reference (d, aid) lines = Inr (d', aid') \<longrightarrow> d' \<noteq> [])"
proof (induction lines arbitrary: d aid)
  case Nil
  then show ?case by simp
next
  case (Cons line lines)
  show ?case
  proof (cases "skipped reference line")
    case True
    then have "\<exists>line\<in>set lines. \<not> skipped reference line" using Cons.prems by auto
    then show ?thesis using Cons.IH True by (simp add: parse_line_skipped)
  next
    case False
    show ?thesis
    proof (cases "parse_line reference (d, aid) line")
      case (Inl e)
      then show ?thesis using parse_line_indexed[OF False, of d aid] by simp
    next
      case (Inr st)
      obtain d1 a1 where st: "st = (d1, a1)" by (cases st) auto
      have "d1 \<noteq> []" using parse_line_indexed[OF False, of d aid] Inr st by simp
      then show ?thesis
        using Inr st parse_lines_keeps[of reference d1 a1 lines] by simp
    qed
  qed
qed

lemma parse_line_not_indexed:
  "\<not> indexed reference line \<Longrightarrow>
   parse_line reference state line = Inr state \<or> parse_line reference state line = Inl IndexError"
proof (cases "startswith line reference")
  case False
  then show ?thesis by (simp add: parse_line_def)
next
  case True
  assume n: "\<not> indexed reference line"
  show ?thesis
  proof (cases "length (py_split (CHR 0x09) (strip line)) \<le> 8")
    case s: True
    then show ?thesis using True by (simp add: parse_line_def)
  next
    case False
    then have "\<not> startswith (py_split (CHR 0x09) (strip line) ! 8) ''ID=''"
      using n True by (simp add: indexed_def)
    then show ?thesis using True False by (simp add: parse_line_def)
  qed
qed

lemma parse_lines_not_indexed:
  "\<forall>line\<in>set lines. \<not> indexed reference line \<Longrightarrow>
   parse_lines reference state lines = Inr state \<or>
   parse_lines reference state lines = Inl IndexError"
proof (induction lines)
  case Nil
  then show ?case by simp
next
  case (Cons line lines)
  then have "\<not> indexed reference line" by simp
  from parse_line_not_indexed[OF this, of state] show ?case
  proof
    assume "parse_line reference state line = Inr state"
    then show ?thesis using Cons by simp
  next
    assume "parse_line reference state line = Inl IndexError"
    then show ?thesis by simp
  qed
qed

lemma parse_gff3_Inr_indexed:
  assumes "parse_gff3 file reference = Inr gff3_dict"
  shows "\<exists>line\<in>set file. indexed reference line"
proof (rule ccontr)
  assume "\<not> (\<exists>line\<in>set file. indexed reference line)"
  then have "\<forall>line\<in>set file. \<not> indexed reference line" by blast
  from parse_lines_not_indexed[OF this, of "([], None)"] show False
  proof
    assume "parse_lines reference ([], None) file = Inr ([], None)"
    then show False using assms by (simp add: parse_gff3_def)
  next
    assume "parse_lines reference ([], None) file = Inl IndexError"
    then show False using assms by (simp add: parse_gff3_def)
  qed
qed

lemma indexed_not_skipped: "indexed reference line \<Longrightarrow> \<not> skipped reference line"
  by (auto simp: indexed_def skipped_def Let_def)

text \<open>
  C9 (as amended): \<^verbatim>\<open>parse_gff3\<close> ends with the abort for a reference that was not
  found if and only if the loop skips every line of the file: each line either does
  not start with the reference id, or has nine fields or more and a ninth field that
  does not start with \<^verbatim>\<open>ID=\<close>. When it returns, the dictionary is not empty and
  some line of the file starts with the reference and has a ninth field that starts
  with \<^verbatim>\<open>ID=\<close>. A line that starts with the reference is therefore not enough
  for a result: without a leading \<^verbatim>\<open>ID=\<close> it is skipped.
\<close>

theorem parse_gff3_reference_not_found:
  "(parse_gff3 file reference = Inl ReferenceNotFound \<longleftrightarrow>
      (\<forall>line\<in>set file. skipped reference line)) \<and>
   (parse_gff3 file reference = Inr gff3_dict \<longrightarrow>
      gff3_dict \<noteq> [] \<and>
      (\<exists>line\<in>set file.
         startswith line reference \<and>
         8 < length (py_split (CHR 0x09) (strip line)) \<and>
         startswith (py_split (CHR 0x09) (strip line) ! 8) ''ID=''))"
proof -
  have a: "parse_gff3 file reference = Inl ReferenceNotFound \<longleftrightarrow>
      (\<forall>line\<in>set file. skipped reference line)"
  proof (cases "\<forall>line\<in>set file. skipped reference line")
    case True
    then have "parse_lines reference ([], None) file = Inr ([], None)"
      by (rule parse_lines_skipped)
    then have "parse_gff3 file reference = Inl ReferenceNotFound"
      by (simp add: parse_gff3_def)
    then show ?thesis using True by simp
  next
    case False
    then have ex: "\<exists>line\<in>set file. \<not> skipped reference line" by blast
    note I = parse_lines_indexed[OF ex, of "[]" None]
    have "parse_gff3 file reference \<noteq> Inl ReferenceNotFound"
    proof (cases "parse_lines reference ([], None) file")
      case (Inl e)
      then show ?thesis using I by (simp add: parse_gff3_def)
    next
      case (Inr st)
      then show ?thesis using I by (cases st) (simp add: parse_gff3_def)
    qed
    then show ?thesis using False by simp
  qed
  have b: "gff3_dict \<noteq> [] \<and>
      (\<exists>line\<in>set file.
         startswith line reference \<and>
         8 < length (py_split (CHR 0x09) (strip line)) \<and>
         startswith (py_split (CHR 0x09) (strip line) ! 8) ''ID='')"
    if r: "parse_gff3 file reference = Inr gff3_dict"
  proof -
    have "gff3_dict \<noteq> []"
      using r by (auto simp: parse_gff3_def ebind_Inr_iff split: if_splits)
    moreover from parse_gff3_Inr_indexed[OF r] obtain line where
      "line \<in> set file" "indexed reference line" by blast
    then have "\<exists>line\<in>set file.
         startswith line reference \<and>
         8 < length (py_split (CHR 0x09) (strip line)) \<and>
         startswith (py_split (CHR 0x09) (strip line) ! 8) ''ID=''"
      by (auto simp: indexed_def Let_def)
    ultimately show ?thesis by blast
  qed
  show ?thesis
  proof (intro conjI impI)
    show "parse_gff3 file reference = Inl ReferenceNotFound \<longleftrightarrow>
      (\<forall>line\<in>set file. skipped reference line)" by (rule a)
  next
    assume r: "parse_gff3 file reference = Inr gff3_dict"
    show "gff3_dict \<noteq> []" using b[OF r] by (rule conjunct1)
    show "\<exists>line\<in>set file.
         startswith line reference \<and>
         8 < length (py_split (CHR 0x09) (strip line)) \<and>
         startswith (py_split (CHR 0x09) (strip line) ! 8) ''ID=''"
      using b[OF r] by (rule conjunct2)
  qed
qed


theorem parse_gff3_reference_not_found_witness:
  "parse_gff3
     [''##gff-version 3'' @ [CHR 0x0A],
      text_line [''ref'', ''src'', ''gene'', ''10'', ''50'', ''.'', ''+'', ''.'', ''ID=g1;Name=A''],
      text_line [''ref'', ''src'', ''CDS'', ''10'', ''50'', ''.'', ''+'', ''.'', ''Parent=g1'']]
     ''ref'' =
     Inr [(''gene'', [(''g1'', [(''Name'', GStr ''A''), (''start'', GInt 10), (''stop'', GInt 50),
                               (''strand'', GStr ''+'')])])] \<and>
   (\<exists>line\<in>set [''##gff-version 3'' @ [CHR 0x0A],
      text_line [''ref'', ''src'', ''gene'', ''10'', ''50'', ''.'', ''+'', ''.'', ''ID=g1;Name=A''],
      text_line [''ref'', ''src'', ''CDS'', ''10'', ''50'', ''.'', ''+'', ''.'', ''Parent=g1'']].
      startswith line ''ref'' \<and>
      8 < length (py_split (CHR 0x09) (strip line)) \<and>
      startswith (py_split (CHR 0x09) (strip line) ! 8) ''ID='') \<and>
   parse_gff3
     [''##gff-version 3'' @ [CHR 0x0A],
      text_line [''other'', ''src'', ''gene'', ''10'', ''50'', ''.'', ''+'', ''.'', ''ID=g1;Name=A'']]
     ''ref'' = Inl ReferenceNotFound"
proof -
  let ?F = "[''##gff-version 3'' @ [CHR 0x0A],
      text_line [''ref'', ''src'', ''gene'', ''10'', ''50'', ''.'', ''+'', ''.'', ''ID=g1;Name=A''],
      text_line [''ref'', ''src'', ''CDS'', ''10'', ''50'', ''.'', ''+'', ''.'', ''Parent=g1'']]"
  let ?G = "[''##gff-version 3'' @ [CHR 0x0A],
      text_line [''other'', ''src'', ''gene'', ''10'', ''50'', ''.'', ''+'', ''.'', ''ID=g1;Name=A'']]"
  let ?D = "[(''gene'', [(''g1'', [(''Name'', GStr ''A''), (''start'', GInt 10), (''stop'', GInt 50),
                               (''strand'', GStr ''+'')])])]"
  have h: "parse_gff3 ?F ''ref'' = Inr ?D"
    by code_simp
  have s: "\<forall>line\<in>set ?G. skipped ''ref'' line"
    by (simp add: skipped_def startswith_def text_line_def)
  note T = parse_gff3_reference_not_found[of ?F "''ref''" ?D]
  have 1: "\<exists>line\<in>set ?F.
      startswith line ''ref'' \<and>
      8 < length (py_split (CHR 0x09) (strip line)) \<and>
      startswith (py_split (CHR 0x09) (strip line) ! 8) ''ID=''"
    using T[THEN conjunct2, THEN mp, OF h] by (rule conjunct2)
  have 2: "parse_gff3 ?G ''ref'' = Inl ReferenceNotFound"
    using parse_gff3_reference_not_found[of ?G "''ref''", THEN conjunct1] s by (rule iffD2)
  show ?thesis using h 1 2 by (intro conjI)
qed

text \<open>
  The claim as stated fails: the only line of this file has the reference as its
  first field, and \<^verbatim>\<open>parse_gff3\<close> ends with the abort, because the line's attributes
  do not start with \<^verbatim>\<open>ID=\<close>.
\<close>

theorem parse_gff3_matching_line_counterexample:
  "hd (py_split (CHR 0x09) (strip
     (text_line [''ref'', ''src'', ''CDS'', ''10'', ''50'', ''.'', ''+'', ''.'', ''Parent=g1''])))
     = ''ref'' \<and>
   parse_gff3
     [text_line [''ref'', ''src'', ''CDS'', ''10'', ''50'', ''.'', ''+'', ''.'', ''Parent=g1'']]
     ''ref'' = Inl ReferenceNotFound"
  by code_simp

subsection \<open>The mutation axis\<close>

lemma positions_Inr:
  "positions xs = Inr keys \<Longrightarrow> map mutation_position xs = map Inr keys"
proof (induction xs arbitrary: keys)
  case Nil
  then show ?case by simp
next
  case (Cons x xs)
  from Cons.prems obtain key rest where
    "mutation_position x = Inr key" "positions xs = Inr rest" "keys = key # rest"
    by (auto simp: ebind_Inr_iff)
  then show ?case using Cons.IH by simp
qed

lemma zip_positions:
  assumes "map mutation_position xs = map Inr keys"
  shows "\<forall>p\<in>set (zip keys xs). mutation_position (snd p) = Inr (fst p)"
proof -
  have l: "length xs = length keys" using assms by (metis length_map)
  show ?thesis
  proof
    fix p assume "p \<in> set (zip keys xs)"
    then obtain i where i: "i < length keys" "i < length xs" "p = (keys ! i, xs ! i)"
      by (auto simp: set_zip)
    have "map mutation_position xs ! i = map Inr keys ! i" using assms by simp
    then show "mutation_position (snd p) = Inr (fst p)" using i by simp
  qed
qed

text \<open>
  C4: when \<^verbatim>\<open>extract_vcf_data\<close> returns, every label of the mutation axis starts
  with an integer position (the token before its first underscore), and the axis is
  in ascending order of these numbers, whatever the order of the records in the files
  and the order in which the set of labels iterates.
\<close>

theorem extract_vcf_data_sorted_by_position:
  assumes "extract_vcf_data set_order float_repr vcf_files reference threshold scores =
             Inr (frequency_lists, unique_mutations, file_names)"
  shows "\<exists>keys. map mutation_position unique_mutations = map Inr keys \<and> sorted keys"
proof -
  let ?labels = "set_order (concat (map (map fst) frequency_lists))"
  from assms obtain fl keys where
    f: "frequency_lists_of float_repr vcf_files reference threshold scores = Inr fl" and
    k: "positions (set_order (concat (map (map fst) fl))) = Inr keys" and
    r: "(if map snd (sort_key fst (zip keys (set_order (concat (map (map fst) fl))))) = []
         then Inl NoVariantsFound
         else Inr (fl, map snd (sort_key fst (zip keys (set_order (concat (map (map fst) fl))))),
                   map fst vcf_files)) = Inr (frequency_lists, unique_mutations, file_names)"
    unfolding extract_vcf_data_def Let_def ebind_Inr_iff by blast
  have fl: "fl = frequency_lists" and
    u: "unique_mutations = map snd (sort_key fst (zip keys ?labels))"
    using r by (auto split: if_splits)
  let ?s = "sort_key fst (zip keys ?labels)"
  have "\<forall>p\<in>set (zip keys ?labels). mutation_position (snd p) = Inr (fst p)"
    using positions_Inr[OF k] fl by (intro zip_positions) simp
  then have "\<forall>p\<in>set ?s. mutation_position (snd p) = Inr (fst p)" by simp
  then have "map mutation_position (map snd ?s) = map Inr (map fst ?s)" by simp
  moreover have "sorted (map fst ?s)" by (rule sorted_sort_key)
  ultimately show ?thesis using u by blast
qed

theorem extract_vcf_data_sorted_by_position_witness:
  "extract_vcf_data remdups (\<lambda>q. ''0.0'')
     [(''s1'',
       [''##fileformat=VCFv4.2'' @ [CHR 0x0A],
        text_line [''#CHROM'', ''POS'', ''ID'', ''REF'', ''ALT'', ''QUAL'', ''FILTER'', ''INFO''],
        text_line [''ref'', ''100'', ''.'', ''A'', ''T,GA'', ''50'', ''PASS'', ''AF=0.25,0.5''],
        text_line [''ref'', ''9'', ''.'', ''AT'', ''A'', ''50'', ''PASS'', ''AF=1''],
        text_line [''ref'', ''20'', ''.'', ''C'', ''G'', ''50'', ''PASS'', ''AF=0.125'']])]
     ''ref'' 0 False =
     Inr ([[(''100_A_T_SNV'', PFloat (1 / 4)), (''100_A_GA_INS'', PFloat (1 / 2)),
            (''9_AT_A_DEL'', PInt 1), (''20_C_G_SNV'', PFloat (1 / 8))]],
          [''9_AT_A_DEL'', ''20_C_G_SNV'', ''100_A_T_SNV'', ''100_A_GA_INS''],
          [''s1'']) \<and>
   (\<exists>keys. map mutation_position
       [''9_AT_A_DEL'', ''20_C_G_SNV'', ''100_A_T_SNV'', ''100_A_GA_INS''] = map Inr keys \<and>
     sorted keys)"
proof -
  have h: "extract_vcf_data remdups (\<lambda>q. ''0.0'')
     [(''s1'',
       [''##fileformat=VCFv4.2'' @ [CHR 0x0A],
        text_line [''#CHROM'', ''POS'', ''ID'', ''REF'', ''ALT'', ''QUAL'', ''FILTER'', ''INFO''],
        text_line [''ref'', ''100'', ''.'', ''A'', ''T,GA'', ''50'', ''PASS'', ''AF=0.25,0.5''],
        text_line [''ref'', ''9'', ''.'', ''AT'', ''A'', ''50'', ''PASS'', ''AF=1''],
        text_line [''ref'', ''20'', ''.'', ''C'', ''G'', ''50'', ''PASS'', ''AF=0.125'']])]
     ''ref'' 0 False =
     Inr ([[(''100_A_T_SNV'', PFloat (1 / 4)), (''100_A_GA_INS'', PFloat (1 / 2)),
            (''9_AT_A_DEL'', PInt 1), (''20_C_G_SNV'', PFloat (1 / 8))]],
          [''9_AT_A_DEL'', ''20_C_G_SNV'', ''100_A_T_SNV'', ''100_A_GA_INS''],
          [''s1''])"
    by code_simp
  show ?thesis
    using h extract_vcf_data_sorted_by_position[OF h] by blast
qed

subsection \<open>Reading a VCF file\<close>

lemma append_values_Inr:
  "append_values d key vs = Inr d' \<Longrightarrow>
   \<exists>old. map_of d key = Some old \<and> d' = AList.update key (old @ vs) d"
  by (auto simp: append_values_def lookup_def ebind_Inr_iff split: option.splits)

lemma append_values_other:
  "append_values d key vs = Inr d' \<Longrightarrow> key' \<noteq> key \<Longrightarrow> map_of d' key' = map_of d key'"
  by (auto dest!: append_values_Inr simp: update_conv')

lemma append_values_same:
  "append_values d key vs = Inr d' \<Longrightarrow>
   \<exists>old. map_of d key = Some old \<and> map_of d' key = Some (old @ vs)"
  by (auto dest!: append_values_Inr simp: update_conv')

lemma canonical_columns_other:
  "canonical_columns keys idx line k d = Inr d' \<Longrightarrow> key \<notin> set keys \<Longrightarrow>
   map_of d' key = map_of d key"
proof (induction keys arbitrary: idx d)
  case Nil
  then show ?case by simp
next
  case (Cons a keys)
  from Cons.prems(1) obtain field d1 where
    1: "append_values d a (column_values (py_split (CHR '','') field) k) = Inr d1" and
    2: "canonical_columns keys (Suc idx) line k d1 = Inr d'"
    by (auto simp: ebind_Inr_iff)
  have "map_of d' key = map_of d1 key" using Cons.IH[OF 2] Cons.prems(2) by simp
  then show ?case using append_values_other[OF 1, of key] Cons.prems(2) by simp
qed

lemma canonical_columns_column:
  "canonical_columns keys idx line k d = Inr d' \<Longrightarrow> distinct keys \<Longrightarrow> i < length keys \<Longrightarrow>
   idx + i < length line \<and>
   (\<exists>old. map_of d (keys ! i) = Some old \<and>
      map_of d' (keys ! i) =
        Some (old @ column_values (py_split (CHR '','') (line ! (idx + i))) k))"
proof (induction keys arbitrary: idx d i)
  case Nil
  then show ?case by simp
next
  case (Cons a keys)
  from Cons.prems(1) obtain field d1 where
    0: "item line idx = Inr field" and
    1: "append_values d a (column_values (py_split (CHR '','') field) k) = Inr d1" and
    2: "canonical_columns keys (Suc idx) line k d1 = Inr d'"
    by (auto simp: ebind_Inr_iff)
  have f: "idx < length line" "field = line ! idx"
    using 0 by (auto simp: item_def split: if_splits)
  show ?case
  proof (cases i)
    case 0
    have "a \<notin> set keys" using Cons.prems(2) by simp
    then have "map_of d' a = map_of d1 a" using canonical_columns_other[OF 2] by simp
    then show ?thesis using append_values_same[OF 1] 0 f by auto
  next
    case (Suc j)
    have j: "j < length keys" using Cons.prems(3) Suc by simp
    have d: "distinct keys" using Cons.prems(2) by simp
    have "keys ! j \<noteq> a" using Cons.prems(2) j by auto
    then have "map_of d1 (keys ! j) = map_of d (keys ! j)"
      using append_values_other[OF 1] by simp
    then show ?thesis using Cons.IH[OF 2 d j] Suc by simp
  qed
qed

lemma info_fields_other:
  "info_fields infos (d, visited) = Inr (d', visited') \<Longrightarrow>
   set visited \<subseteq> set visited' \<and>
   (key \<notin> set visited' \<longrightarrow> map_of d' key = map_of d key)"
proof (induction infos arbitrary: d visited)
  case Nil
  then show ?case by simp
next
  case (Cons info infos)
  show ?case
  proof (cases "CHR ''='' \<in> set info")
    case False
    then show ?thesis using Cons by simp
  next
    case True
    with Cons.prems obtain k v d1 where
      s: "py_split (CHR ''='') info = [k, v]" and
      1: "append_values d k (map convert_string (py_split (CHR '','') v)) = Inr d1" and
      2: "info_fields infos (d1, visited @ [k]) = Inr (d', visited')"
      by (auto simp: ebind_Inr_iff split: list.splits)
    note ih = Cons.IH[OF 2]
    have "k \<in> set visited'" using ih by auto
    then show ?thesis using ih append_values_other[OF 1, of key] by auto
  qed
qed

lemma pad_missing_visited:
  "key \<in> set visited \<Longrightarrow> map_of (pad_missing k visited d) key = map_of d key"
  by (induction d) (auto simp: pad_missing_def)

lemma pad_missing_not_visited:
  "key \<notin> set visited \<Longrightarrow> map_of d key = Some old \<Longrightarrow>
   map_of (pad_missing k visited d) key = Some (old @ replicate k PNone)"
  by (induction d) (auto simp: pad_missing_def split: if_splits)

lemma column_values_length [simp]: "length (column_values sublines k) = k"
  by (simp add: column_values_def)

lemma column_values_nth:
  "i < k \<Longrightarrow> column_values sublines k ! i =
     convert_string (if i < length sublines then sublines ! i else hd sublines)"
  by (simp add: column_values_def)

lemma column_values_single:
  "column_values [v] k = replicate k (convert_string v)"
  by (auto simp: column_values_def list_eq_iff_nth_eq)

lemma info_fields_untouched:
  "info_fields infos (d, visited) = Inr (d', visited') \<Longrightarrow>
   \<forall>info\<in>set infos. CHR ''='' \<in> set info \<longrightarrow> hd (py_split (CHR ''='') info) \<noteq> key \<Longrightarrow>
   map_of d' key = map_of d key"
proof (induction infos arbitrary: d visited)
  case Nil
  then show ?case by simp
next
  case (Cons info infos)
  show ?case
  proof (cases "CHR ''='' \<in> set info")
    case False
    then show ?thesis using Cons by simp
  next
    case True
    with Cons.prems(1) obtain k v d1 where
      s: "py_split (CHR ''='') info = [k, v]" and
      1: "append_values d k (map convert_string (py_split (CHR '','') v)) = Inr d1" and
      2: "info_fields infos (d1, visited @ [k]) = Inr (d', visited')"
      by (auto simp: ebind_Inr_iff split: list.splits)
    have "k \<noteq> key" using Cons.prems(2) True s by auto
    then have "map_of d1 key = map_of d key" using append_values_other[OF 1] by simp
    moreover have "map_of d' key = map_of d1 key"
      using Cons.IH[OF 2] Cons.prems(2) by simp
    ultimately show ?thesis by simp
  qed
qed

lemma canonical_columns_once:
  "canonical_columns keys idx line k d = Inr d' \<Longrightarrow> i < length keys \<Longrightarrow>
   \<forall>j<length keys. keys ! j = keys ! i \<longrightarrow> j = i \<Longrightarrow>
   \<exists>old. map_of d (keys ! i) = Some old \<and>
      map_of d' (keys ! i) =
        Some (old @ column_values (py_split (CHR '','') (line ! (idx + i))) k)"
proof (induction keys arbitrary: idx d i)
  case Nil
  then show ?case by simp
next
  case (Cons a keys)
  from Cons.prems(1) obtain field d1 where
    0: "item line idx = Inr field" and
    1: "append_values d a (column_values (py_split (CHR '','') field) k) = Inr d1" and
    2: "canonical_columns keys (Suc idx) line k d1 = Inr d'"
    by (auto simp: ebind_Inr_iff)
  have f: "field = line ! idx"
    using 0 by (auto simp: item_def split: if_splits)
  show ?case
  proof (cases i)
    case 0
    have "a \<notin> set keys"
    proof
      assume "a \<in> set keys"
      then obtain j where j: "j < length keys" "keys ! j = a"
        by (auto simp: in_set_conv_nth)
      then have "Suc j < length (a # keys)" "(a # keys) ! Suc j = (a # keys) ! i"
        using 0 by auto
      then have "Suc j = i" using Cons.prems(3) by blast
      then show False using 0 by simp
    qed
    then have "map_of d' a = map_of d1 a" using canonical_columns_other[OF 2] by simp
    then show ?thesis using append_values_same[OF 1] 0 f by auto
  next
    case (Suc m)
    have m: "m < length keys" using Cons.prems(2) Suc by simp
    have "keys ! m \<noteq> a"
    proof
      assume "keys ! m = a"
      then have "(a # keys) ! 0 = (a # keys) ! i" using Suc by simp
      moreover have "0 < length (a # keys)" by simp
      ultimately have "0 = i" using Cons.prems(3) by blast
      then show False using Suc by simp
    qed
    then have e: "map_of d1 (keys ! m) = map_of d (keys ! m)"
      using append_values_other[OF 1] by simp
    have u: "\<forall>j<length keys. keys ! j = keys ! m \<longrightarrow> j = m"
    proof (intro allI impI)
      fix j assume j: "j < length keys" "keys ! j = keys ! m"
      then have "Suc j < length (a # keys)" "(a # keys) ! Suc j = (a # keys) ! i"
        using Suc by auto
      then have "Suc j = i" using Cons.prems(3) by blast
      then show "j = m" using Suc by simp
    qed
    show ?thesis using Cons.IH[OF 2 m u] e Suc by simp
  qed
qed

lemma fill_line_column:
  assumes "fill_line header vcf_dict line = Inr vcf_dict'"
    and "idx < length (take 6 header)"
    and "\<forall>j<length (take 6 header). header ! j = header ! idx \<longrightarrow> j = idx"
    and "header ! idx \<noteq> ''MUT_TYPE_''"
    and "\<forall>info\<in>set (py_split (CHR '';'') (line ! 7)).
           CHR ''='' \<in> set info \<longrightarrow> hd (py_split (CHR ''='') info) \<noteq> header ! idx"
  shows "\<exists>old. map_of vcf_dict (header ! idx) = Some old \<and>
           map_of vcf_dict' (header ! idx) =
             Some (old @ column_values (py_split (CHR '','') (line ! idx))
                           (length (py_split (CHR '','') (line ! 4))))"
proof -
  let ?key = "header ! idx"
  from assms(1) obtain alt d1 ref d2 info d3 visited where
    a: "item line 4 = Inr alt" and
    c: "canonical_columns (take 6 header) 0 line (length (py_split (CHR '','') alt)) vcf_dict = Inr d1" and
    m: "append_values d1 ''MUT_TYPE_''
          (map (\<lambda>mutation. PStr (mut_type ref mutation)) (py_split (CHR '','') alt)) = Inr d2" and
    i: "item line 7 = Inr info" and
    f: "info_fields (py_split (CHR '';'') info) (d2, take 6 header @ [''MUT_TYPE_'']) = Inr (d3, visited)" and
    p: "vcf_dict' = pad_missing (length (py_split (CHR '','') alt)) visited d3"
    unfolding fill_line_def Let_def ebind_Inr_iff by (auto split: prod.splits)
  let ?k = "length (py_split (CHR '','') alt)"
  let ?entries = "column_values (py_split (CHR '','') (line ! idx)) ?k"
  have alt: "alt = line ! 4" using a by (auto simp: item_def split: if_splits)
  have info: "info = line ! 7" using i by (auto simp: item_def split: if_splits)
  have key: "take 6 header ! idx = ?key" using assms(2) by simp
  have once: "\<forall>j<length (take 6 header). take 6 header ! j = take 6 header ! idx \<longrightarrow> j = idx"
    using assms(2,3) by simp
  from canonical_columns_once[OF c assms(2) once] obtain old where
    o: "map_of vcf_dict ?key = Some old" and
    n: "map_of d1 ?key = Some (old @ ?entries)"
    unfolding key by auto
  have kin: "?key \<in> set (take 6 header)" using assms(2) key by (metis nth_mem)
  have 2: "map_of d2 ?key = map_of d1 ?key" using append_values_other[OF m] assms(4) by simp
  have 3: "map_of d3 ?key = map_of d2 ?key"
    using info_fields_untouched[OF f] assms(5) info by simp
  have "set (take 6 header @ [''MUT_TYPE_'']) \<subseteq> set visited"
    using info_fields_other[OF f] by blast
  then have "?key \<in> set visited" using kin by auto
  then have 4: "map_of vcf_dict' ?key = map_of d3 ?key"
    unfolding p by (rule pad_missing_visited)
  show ?thesis using 2 3 4 n o alt by simp
qed

lemma fill_lines_column:
  "fill_lines header d lines = Inr d' \<Longrightarrow> idx < length (take 6 header) \<Longrightarrow>
   \<forall>j<length (take 6 header). header ! j = header ! idx \<longrightarrow> j = idx \<Longrightarrow>
   header ! idx \<noteq> ''MUT_TYPE_'' \<Longrightarrow>
   \<forall>line\<in>set lines. \<forall>info\<in>set (py_split (CHR '';'') (line ! 7)).
      CHR ''='' \<in> set info \<longrightarrow> hd (py_split (CHR ''='') info) \<noteq> header ! idx \<Longrightarrow>
   map_of d (header ! idx) = Some old \<Longrightarrow>
   map_of d' (header ! idx) =
     Some (old @ concat (map (\<lambda>line. column_values (py_split (CHR '','') (line ! idx))
                                        (length (py_split (CHR '','') (line ! 4)))) lines))"
proof (induction lines arbitrary: d old)
  case Nil
  then show ?case by simp
next
  case (Cons line lines)
  from Cons.prems(1) obtain d1 where
    1: "fill_line header d line = Inr d1" and
    2: "fill_lines header d1 lines = Inr d'"
    by (auto simp: ebind_Inr_iff)
  have i: "\<forall>info\<in>set (py_split (CHR '';'') (line ! 7)).
      CHR ''='' \<in> set info \<longrightarrow> hd (py_split (CHR ''='') info) \<noteq> header ! idx"
    using Cons.prems(5) by simp
  from fill_line_column[OF 1 Cons.prems(2,3,4) i] Cons.prems(6)
  have n: "map_of d1 (header ! idx) =
             Some (old @ column_values (py_split (CHR '','') (line ! idx))
                           (length (py_split (CHR '','') (line ! 4))))"
    by simp
  have r: "\<forall>line\<in>set lines. \<forall>info\<in>set (py_split (CHR '';'') (line ! 7)).
      CHR ''='' \<in> set info \<longrightarrow> hd (py_split (CHR ''='') info) \<noteq> header ! idx"
    using Cons.prems(5) by simp
  show ?case
    using Cons.IH[OF 2 Cons.prems(2,3,4) r n] by simp
qed

lemma empty_columns:
  "map_of acc key = Some [] \<or> key \<in> set keys \<Longrightarrow>
   map_of (fold (\<lambda>key d. AList.update key [] d) keys acc) key = Some []"
proof (induction keys arbitrary: acc)
  case Nil
  then show ?case by simp
next
  case (Cons a keys)
  have "map_of (AList.update a [] acc) key = Some [] \<or> key \<in> set keys"
    using Cons.prems by (auto simp: update_conv')
  then show ?case using Cons.IH by simp
qed

lemma info_columns_keeps:
  "info_columns lines d = Inr d' \<Longrightarrow> map_of d key = Some [] \<Longrightarrow> map_of d' key = Some []"
proof (induction lines arbitrary: d)
  case Nil
  then show ?case by simp
next
  case (Cons line lines)
  from Cons.prems(1) obtain info where
    r: "info_columns lines
         (fold (\<lambda>info d. if CHR ''='' \<in> set info
                           then AList.update (hd (py_split (CHR ''='') info)) [] d else d)
            (py_split (CHR '';'') info) d) = Inr d'"
    by (auto simp: ebind_Inr_iff)
  have "map_of (fold (\<lambda>info d. if CHR ''='' \<in> set info
                           then AList.update (hd (py_split (CHR ''='') info)) [] d else d)
            infos d) key = Some []" if "map_of d key = Some []" for infos d
    using that by (induction infos arbitrary: d) (auto simp: update_conv')
  then show ?case using Cons.IH[OF r] Cons.prems(2) by blast
qed

text \<open>
  C6 (as amended): for a data line with k comma separated ALT alleles, each of the
  first six header columns appends exactly k entries to the list \<^verbatim>\<open>read_vcf\<close> returns
  under the column's name: entry i is the i-th comma separated value of the line's
  field when the field has one, and the field's first value otherwise, so a field
  with a single value is repeated in all k places. The list under the name is made
  of these entries, line after line, when the name stands once among the first six
  names of the header, is not \<^verbatim>\<open>MUT_TYPE_\<close>, and is not a key of an INFO field of a
  selected line.
\<close>

theorem read_vcf_canonical_columns:
  assumes "read_vcf vcf_file reference = Inr (warnings, vcf_dict)"
    and "filter (\<lambda>l. startswith l ''#CHROM'') vcf_file = h # hs"
    and "header = py_split (CHR 0x09) (strip h)"
    and "lines = map (\<lambda>l. py_split (CHR 0x09) (strip l))
                   (filter (\<lambda>l. startswith l reference) vcf_file)"
    and "idx < length (take 6 header)"
    and "\<forall>j<length (take 6 header). header ! j = header ! idx \<longrightarrow> j = idx"
    and "header ! idx \<noteq> ''MUT_TYPE_''"
    and "\<forall>line\<in>set lines. \<forall>info\<in>set (py_split (CHR '';'') (line ! 7)).
           CHR ''='' \<in> set info \<longrightarrow> hd (py_split (CHR ''='') info) \<noteq> header ! idx"
  shows "map_of vcf_dict (header ! idx) =
           Some (concat (map (\<lambda>line. column_values (py_split (CHR '','') (line ! idx))
                                        (length (py_split (CHR '','') (line ! 4)))) lines)) \<and>
         (\<forall>line\<in>set lines.
            length (column_values (py_split (CHR '','') (line ! idx))
                      (length (py_split (CHR '','') (line ! 4)))) =
              length (py_split (CHR '','') (line ! 4)) \<and>
            (\<forall>i<length (py_split (CHR '','') (line ! 4)).
               column_values (py_split (CHR '','') (line ! idx))
                 (length (py_split (CHR '','') (line ! 4))) ! i =
               convert_string
                 (if i < length (py_split (CHR '','') (line ! idx))
                  then py_split (CHR '','') (line ! idx) ! i
                  else hd (py_split (CHR '','') (line ! idx)))) \<and>
            (length (py_split (CHR '','') (line ! idx)) = 1 \<longrightarrow>
               column_values (py_split (CHR '','') (line ! idx))
                 (length (py_split (CHR '','') (line ! 4))) =
               replicate (length (py_split (CHR '','') (line ! 4)))
                 (convert_string (hd (py_split (CHR '','') (line ! idx))))))"
proof -
  let ?key = "header ! idx"
  let ?d0 = "fold (\<lambda>key d. AList.update key [] d) (take 6 header) [] :: vcf_dict"
  let ?d1 = "AList.update ''MUT_TYPE_'' [] ?d0"
  have "\<exists>d2. info_columns lines ?d1 = Inr d2 \<and> fill_lines header d2 lines = Inr vcf_dict"
    using assms(1) unfolding read_vcf_def assms(2)
    by (auto simp: Let_def ebind_Inr_iff assms(3) assms(4))
  then obtain d2 where
    i: "info_columns lines ?d1 = Inr d2" and
    f: "fill_lines header d2 lines = Inr vcf_dict"
    by blast
  have "?key \<in> set (take 6 header)" using assms(5) by (metis nth_mem nth_take length_take min_less_iff_conj)
  then have "map_of ?d0 ?key = Some []" by (intro empty_columns) simp
  then have "map_of ?d1 ?key = Some []" by (simp add: update_conv')
  then have e: "map_of d2 ?key = Some []" using info_columns_keeps[OF i] by simp
  have 1: "map_of vcf_dict ?key =
           Some (concat (map (\<lambda>line. column_values (py_split (CHR '','') (line ! idx))
                                        (length (py_split (CHR '','') (line ! 4)))) lines))"
    using fill_lines_column[OF f assms(5,6,7,8) e] by simp
  have 2: "length (column_values s k) = k \<and>
     (\<forall>i<k. column_values s k ! i = convert_string (if i < length s then s ! i else hd s)) \<and>
     (length s = 1 \<longrightarrow> column_values s k = replicate k (convert_string (hd s)))" for s k
  proof (intro conjI allI impI)
    show "length (column_values s k) = k" by simp
  next
    fix i assume "i < k"
    then show "column_values s k ! i = convert_string (if i < length s then s ! i else hd s)"
      by (rule column_values_nth)
  next
    assume "length s = 1"
    then obtain w where "s = [w]" by (cases s) auto
    then show "column_values s k = replicate k (convert_string (hd s))"
      by (simp add: column_values_single)
  qed
  show ?thesis using 1 2 by blast
qed

theorem read_vcf_canonical_columns_witness:
  "read_vcf
     [''##fileformat=VCFv4.2'' @ [CHR 0x0A],
      text_line [''#CHROM'', ''POS'', ''ID'', ''REF'', ''ALT'', ''QUAL'', ''FILTER'', ''INFO''],
      text_line [''ref'', ''100'', ''.'', ''A'', ''T,GA'', ''50'', ''PASS'', ''AF=0.25,0.5''],
      text_line [''ref'', ''9'', ''.'', ''AT'', ''A'', ''50'', ''PASS'', ''AF=1'']]
     ''ref'' =
     Inr ([], [(''#CHROM'', [PStr ''ref'', PStr ''ref'', PStr ''ref'']),
               (''POS'', [PInt 100, PInt 100, PInt 9]),
               (''ID'', [PStr ''.'', PStr ''.'', PStr ''.'']),
               (''REF'', [PStr ''A'', PStr ''A'', PStr ''AT'']),
               (''ALT'', [PStr ''T'', PStr ''GA'', PStr ''A'']),
               (''QUAL'', [PInt 50, PInt 50, PInt 50]),
               (''MUT_TYPE_'', [PStr ''SNV'', PStr ''INS'', PStr ''DEL'']),
               (''AF'', [PFloat (1 / 4), PFloat (1 / 2), PInt 1])]) \<and>
   map_of [(''#CHROM'', [PStr ''ref'', PStr ''ref'', PStr ''ref'']),
               (''POS'', [PInt 100, PInt 100, PInt 9]),
               (''ID'', [PStr ''.'', PStr ''.'', PStr ''.'']),
               (''REF'', [PStr ''A'', PStr ''A'', PStr ''AT'']),
               (''ALT'', [PStr ''T'', PStr ''GA'', PStr ''A'']),
               (''QUAL'', [PInt 50, PInt 50, PInt 50]),
               (''MUT_TYPE_'', [PStr ''SNV'', PStr ''INS'', PStr ''DEL'']),
               (''AF'', [PFloat (1 / 4), PFloat (1 / 2), PInt 1])] ''POS'' =
     Some (concat [column_values [''100''] 2, column_values [''9''] 1])"
proof -
  let ?h = "text_line [''#CHROM'', ''POS'', ''ID'', ''REF'', ''ALT'', ''QUAL'', ''FILTER'', ''INFO'']"
  let ?l1 = "text_line [''ref'', ''100'', ''.'', ''A'', ''T,GA'', ''50'', ''PASS'', ''AF=0.25,0.5'']"
  let ?l2 = "text_line [''ref'', ''9'', ''.'', ''AT'', ''A'', ''50'', ''PASS'', ''AF=1'']"
  let ?F = "[''##fileformat=VCFv4.2'' @ [CHR 0x0A], ?h, ?l1, ?l2]"
  let ?H = "[''#CHROM'', ''POS'', ''ID'', ''REF'', ''ALT'', ''QUAL'', ''FILTER'', ''INFO'']"
  let ?L = "[[''ref'', ''100'', ''.'', ''A'', ''T,GA'', ''50'', ''PASS'', ''AF=0.25,0.5''],
             [''ref'', ''9'', ''.'', ''AT'', ''A'', ''50'', ''PASS'', ''AF=1'']]"
  let ?D = "[(''#CHROM'', [PStr ''ref'', PStr ''ref'', PStr ''ref'']),
               (''POS'', [PInt 100, PInt 100, PInt 9]),
               (''ID'', [PStr ''.'', PStr ''.'', PStr ''.'']),
               (''REF'', [PStr ''A'', PStr ''A'', PStr ''AT'']),
               (''ALT'', [PStr ''T'', PStr ''GA'', PStr ''A'']),
               (''QUAL'', [PInt 50, PInt 50, PInt 50]),
               (''MUT_TYPE_'', [PStr ''SNV'', PStr ''INS'', PStr ''DEL'']),
               (''AF'', [PFloat (1 / 4), PFloat (1 / 2), PInt 1])]"
  have r: "read_vcf ?F ''ref'' = Inr ([], ?D)" by code_simp
  have a: "filter (\<lambda>l. startswith l ''#CHROM'') ?F = ?h # []" by code_simp
  have b: "?H = py_split (CHR 0x09) (strip ?h)" by code_simp
  have c: "?L = map (\<lambda>l. py_split (CHR 0x09) (strip l))
                   (filter (\<lambda>l. startswith l ''ref'') ?F)" by code_simp
  have d: "1 < length (take 6 ?H)" by simp
  have e: "\<forall>j<length (take 6 ?H). ?H ! j = ?H ! 1 \<longrightarrow> j = 1"
  proof (intro allI impI)
    fix j assume "j < length (take 6 ?H)" "?H ! j = ?H ! 1"
    then have "j < 6" "?H ! j = ''POS''" by simp_all
    then consider "j = 0" | "j = 1" | "j = 2" | "j = 3" | "j = 4" | "j = 5" by linarith
    then show "j = 1" using \<open>?H ! j = ''POS''\<close> by cases simp_all
  qed
  have f: "?H ! 1 \<noteq> ''MUT_TYPE_''" by simp
  have g: "\<forall>line\<in>set ?L. \<forall>info\<in>set (py_split (CHR '';'') (line ! 7)).
           CHR ''='' \<in> set info \<longrightarrow> hd (py_split (CHR ''='') info) \<noteq> ?H ! 1"
    by (simp add: py_split_def)
  have p: "py_split (CHR '','') ''100'' = [''100'']" "py_split (CHR '','') ''9'' = [''9'']"
    "length (py_split (CHR '','') ''T,GA'') = 2" "length (py_split (CHR '','') ''A'') = 1"
    by (simp_all add: py_split_def)
  have "map_of ?D (?H ! 1) =
           Some (concat (map (\<lambda>line. column_values (py_split (CHR '','') (line ! 1))
                                        (length (py_split (CHR '','') (line ! 4)))) ?L))"
    using read_vcf_canonical_columns[OF r a b c d e f g] by (rule conjunct1)
  then have "map_of ?D ''POS'' = Some (concat [column_values [''100''] 2, column_values [''9''] 1])"
    using p by simp
  then show ?thesis using r by (intro conjI)
qed

text \<open>
  The claim as stated fails. An ID field \<^verbatim>\<open>a,b\<close> on a line with three alleles gives
  the entries a, b, a: no value is repeated in all three places. And a column does
  not always get k entries for a line: with the INFO field \<^verbatim>\<open>POS=5\<close> the column
  \<^verbatim>\<open>POS\<close> gets two entries for a line with one allele, and so does a name that
  stands twice in the header or is \<^verbatim>\<open>MUT_TYPE_\<close>.
\<close>

theorem read_vcf_canonical_columns_counterexample:
  "read_vcf
     [text_line [''#CHROM'', ''POS'', ''ID'', ''REF'', ''ALT'', ''QUAL'', ''FILTER'', ''INFO''],
      text_line [''ref'', ''10'', ''a,b'', ''A'', ''T,G,C'', ''50'', ''PASS'', ''AF=0.25,0.5,0.125'']]
     ''ref'' =
     Inr ([], [(''#CHROM'', [PStr ''ref'', PStr ''ref'', PStr ''ref'']),
               (''POS'', [PInt 10, PInt 10, PInt 10]),
               (''ID'', [PStr ''a'', PStr ''b'', PStr ''a'']),
               (''REF'', [PStr ''A'', PStr ''A'', PStr ''A'']),
               (''ALT'', [PStr ''T'', PStr ''G'', PStr ''C'']),
               (''QUAL'', [PInt 50, PInt 50, PInt 50]),
               (''MUT_TYPE_'', [PStr ''SNV'', PStr ''SNV'', PStr ''SNV'']),
               (''AF'', [PFloat (1 / 4), PFloat (1 / 2), PFloat (1 / 8)])]) \<and>
   read_vcf
     [text_line [''#CHROM'', ''POS'', ''ID'', ''REF'', ''ALT'', ''QUAL'', ''FILTER'', ''INFO''],
      text_line [''ref'', ''10'', ''.'', ''A'', ''T'', ''50'', ''PASS'', ''POS=5;AF=0.5'']]
     ''ref'' =
     Inr ([], [(''#CHROM'', [PStr ''ref'']), (''POS'', [PInt 10, PInt 5]),
               (''ID'', [PStr ''.'']), (''REF'', [PStr ''A'']), (''ALT'', [PStr ''T'']),
               (''QUAL'', [PInt 50]), (''MUT_TYPE_'', [PStr ''SNV'']),
               (''AF'', [PFloat (1 / 2)])]) \<and>
   read_vcf
     [text_line [''#CHROM'', ''POS'', ''POS'', ''REF'', ''ALT'', ''QUAL'', ''FILTER'', ''INFO''],
      text_line [''ref'', ''10'', ''.'', ''A'', ''T'', ''50'', ''PASS'', ''AF=0.5'']]
     ''ref'' =
     Inr ([], [(''#CHROM'', [PStr ''ref'']), (''POS'', [PInt 10, PStr ''.'']),
               (''REF'', [PStr ''A'']), (''ALT'', [PStr ''T'']), (''QUAL'', [PInt 50]),
               (''MUT_TYPE_'', [PStr ''SNV'']), (''AF'', [PFloat (1 / 2)])]) \<and>
   read_vcf
     [text_line [''#CHROM'', ''POS'', ''MUT_TYPE_'', ''REF'', ''ALT'', ''QUAL'', ''FILTER'', ''INFO''],
      text_line [''ref'', ''10'', ''.'', ''A'', ''T'', ''50'', ''PASS'', ''AF=0.5'']]
     ''ref'' =
     Inr ([], [(''#CHROM'', [PStr ''ref'']), (''POS'', [PInt 10]),
               (''MUT_TYPE_'', [PStr ''.'', PStr ''SNV'']), (''REF'', [PStr ''A'']),
               (''ALT'', [PStr ''T'']), (''QUAL'', [PInt 50]), (''AF'', [PFloat (1 / 2)])])"
  by code_simp

lemma read_vcf_no_header:
  "\<forall>l\<in>set vcf_file. \<not> startswith l ''#CHROM'' \<Longrightarrow>
   read_vcf vcf_file reference = Inr ([NoHeader], [])"
proof -
  assume "\<forall>l\<in>set vcf_file. \<not> startswith l ''#CHROM''"
  then have "filter (\<lambda>l. startswith l ''#CHROM'') vcf_file = []"
    by (simp add: filter_empty_conv)
  then show ?thesis by (simp add: read_vcf_def)
qed

lemma frequency_lists_of_no_header:
  "\<exists>file\<in>set vcf_files. \<forall>l\<in>set (snd file). \<not> startswith l ''#CHROM'' \<Longrightarrow>
   \<exists>e. frequency_lists_of float_repr vcf_files reference threshold scores = Inl e"
proof (induction vcf_files)
  case Nil
  then show ?case by simp
next
  case (Cons vcf rest)
  show ?case
  proof (cases "\<forall>l\<in>set (snd vcf). \<not> startswith l ''#CHROM''")
    case True
    then have "read_vcf (snd vcf) reference = Inr ([NoHeader], [])"
      by (rule read_vcf_no_header)
    then show ?thesis by (simp add: lookup_def)
  next
    case False
    then have "\<exists>file\<in>set rest. \<forall>l\<in>set (snd file). \<not> startswith l ''#CHROM''"
      using Cons.prems by auto
    then obtain e where
      e: "frequency_lists_of float_repr rest reference threshold scores = Inl e"
      using Cons.IH by blast
    show ?thesis
    proof (cases "read_vcf (snd vcf) reference")
      case (Inl a)
      then show ?thesis by simp
    next
      case (Inr r)
      obtain w d where r: "r = (w, d)" by (cases r) auto
      show ?thesis
      proof (cases "lookup d ''#CHROM''")
        case (Inl a)
        then show ?thesis using Inr r by simp
      next
        case c: (Inr chrom)
        show ?thesis
        proof (cases "frequency_entries float_repr d threshold scores [0..<length chrom]")
          case (Inl a)
          then show ?thesis using Inr r c by simp
        next
          case f: (Inr fl)
          then show ?thesis using Inr r c e by simp
        qed
      qed
    qed
  qed
qed

text \<open>
  C2, where the code departs from the claim: \<^verbatim>\<open>read_vcf\<close> warns and returns an empty
  dictionary for a file without a \<^verbatim>\<open>#CHROM\<close> line, but \<^verbatim>\<open>extract_vcf_data\<close> then
  reads \<^verbatim>\<open>vcf_dict["#CHROM"]\<close> and raises. With such a file among its samples it
  never returns a result, whatever the other samples hold.
\<close>

theorem extract_vcf_data_missing_header_raises:
  assumes "\<exists>file\<in>set vcf_files. \<forall>l\<in>set (snd file). \<not> startswith l ''#CHROM''"
  shows "(\<forall>file\<in>set vcf_files. (\<forall>l\<in>set (snd file). \<not> startswith l ''#CHROM'') \<longrightarrow>
            read_vcf (snd file) reference = Inr ([NoHeader], [])) \<and>
         (\<exists>e. extract_vcf_data set_order float_repr vcf_files reference threshold scores = Inl e)"
proof -
  obtain e where "frequency_lists_of float_repr vcf_files reference threshold scores = Inl e"
    using frequency_lists_of_no_header[OF assms] by blast
  then have "extract_vcf_data set_order float_repr vcf_files reference threshold scores = Inl e"
    by (simp add: extract_vcf_data_def)
  then show ?thesis using read_vcf_no_header by blast
qed

theorem extract_vcf_data_missing_header_raises_witness:
  "read_vcf [''##fileformat=VCFv4.2'' @ [CHR 0x0A],
      text_line [''ref'', ''20'', ''.'', ''C'', ''G'', ''50'', ''PASS'', ''AF=0.125'']] ''ref'' =
     Inr ([NoHeader], []) \<and>
   extract_vcf_data remdups (\<lambda>q. ''0.0'')
     [(''s1'',
       [''##fileformat=VCFv4.2'' @ [CHR 0x0A],
        text_line [''#CHROM'', ''POS'', ''ID'', ''REF'', ''ALT'', ''QUAL'', ''FILTER'', ''INFO''],
        text_line [''ref'', ''9'', ''.'', ''AT'', ''A'', ''50'', ''PASS'', ''AF=1'']]),
      (''s2'',
       [''##fileformat=VCFv4.2'' @ [CHR 0x0A],
        text_line [''ref'', ''20'', ''.'', ''C'', ''G'', ''50'', ''PASS'', ''AF=0.125'']])]
     ''ref'' 0 False = Inl KeyError"
proof -
  let ?bad = "[''##fileformat=VCFv4.2'' @ [CHR 0x0A],
      text_line [''ref'', ''20'', ''.'', ''C'', ''G'', ''50'', ''PASS'', ''AF=0.125'']]"
  let ?good = "[''##fileformat=VCFv4.2'' @ [CHR 0x0A],
        text_line [''#CHROM'', ''POS'', ''ID'', ''REF'', ''ALT'', ''QUAL'', ''FILTER'', ''INFO''],
        text_line [''ref'', ''9'', ''.'', ''AT'', ''A'', ''50'', ''PASS'', ''AF=1'']]"
  have b: "\<forall>l\<in>set ?bad. \<not> startswith l ''#CHROM''"
    by (simp add: startswith_def text_line_def)
  then have a: "\<exists>file\<in>set [(''s1'', ?good), (''s2'', ?bad)].
      \<forall>l\<in>set (snd file). \<not> startswith l ''#CHROM''"
    by simp
  have r: "read_vcf ?bad ''ref'' = Inr ([NoHeader], [])"
    using extract_vcf_data_missing_header_raises[OF a, of "''ref''"] b by simp
  have e: "extract_vcf_data remdups (\<lambda>q. ''0.0'') [(''s1'', ?good), (''s2'', ?bad)] ''ref'' 0 False
      = Inl KeyError"
    by code_simp
  show ?thesis using r e by blast
qed

text \<open>
  C3, where the code departs from the claim: an INFO value with fewer comma separated
  parts than the line has ALT alleles (here \<^verbatim>\<open>DP=100\<close> on a line with two alleles) is
  appended as it is, so the column \<^verbatim>\<open>DP\<close> gets one entry where the other columns get
  two.
\<close>

theorem read_vcf_info_column_shorter:
  "read_vcf
     [text_line [''#CHROM'', ''POS'', ''ID'', ''REF'', ''ALT'', ''QUAL'', ''FILTER'', ''INFO''],
      text_line [''ref'', ''10'', ''.'', ''A'', ''T,G'', ''50'', ''PASS'', ''DP=100;AF=0.25,0.5'']]
     ''ref'' =
     Inr ([], [(''#CHROM'', [PStr ''ref'', PStr ''ref'']), (''POS'', [PInt 10, PInt 10]),
               (''ID'', [PStr ''.'', PStr ''.'']), (''REF'', [PStr ''A'', PStr ''A'']),
               (''ALT'', [PStr ''T'', PStr ''G'']), (''QUAL'', [PInt 50, PInt 50]),
               (''MUT_TYPE_'', [PStr ''SNV'', PStr ''SNV'']),
               (''DP'', [PInt 100]),
               (''AF'', [PFloat (1 / 4), PFloat (1 / 2)])])"
  by code_simp

end
